theory Spec2Isabelle
  imports Main "HOL-Library.Word"
begin

unbundle bit_operations_syntax

section \<open>GuC Additional Data Struct (intel\_guc\_ads.c)\<close>

subsection \<open>Data model\<close>

type_synonym u32 = "32 word"
type_synonym u64 = "64 word"

text \<open>
  The macros, enum values and structure sizes that \<^verbatim>\<open>intel_guc_ads.c\<close> takes from
  headers (\<^verbatim>\<open>intel_guc_fwif.h\<close>, \<^verbatim>\<open>intel_lrc.h\<close>, \<^verbatim>\<open>i915_reg.h\<close>, the kernel's page size)
  are parameters of the model, under their own names. Sizes and counts are natural
  numbers; an assignment to a \<^verbatim>\<open>u32\<close> truncates them with \<open>of_nat\<close>. The register
  macros give the offset of a register (the field \<^verbatim>\<open>reg\<close> of \<^verbatim>\<open>i915_reg_t\<close>) from the
  \<^verbatim>\<open>mmio_base\<close> of the engine; \<^verbatim>\<open>RING_MODE_GEN7\<close>, which takes the engine in the source,
  reads nothing else of it.
\<close>

record config =
  PAGE_SIZE :: nat
  LRC_HEADER_PAGES :: nat
  LRC_PPHWSP_SZ :: nat
  GUC_S3_SAVE_SPACE_PAGES :: nat
  GUC_REGSET_MAX_REGISTERS :: u32
  GUC_MMIO_WHITE_LIST_MAX :: nat
  GUC_CLIENT_PRIORITY_NUM :: nat
  GUC_RENDER_ENGINE :: nat
  GUC_MAX_ENGINES_NUM :: nat
  RCS :: nat
  POLICY_DEFAULT_DPC_PROMOTE_TIME_US :: u32
  POLICY_MAX_NUM_WI :: u32
  POLICY_DEFAULT_EXECUTION_QUANTUM_US :: u32
  POLICY_DEFAULT_PREEMPTION_TIME_US :: u32
  POLICY_DEFAULT_FAULT_TIME_US :: u32
  GUC_REGSET_ENGINERESET :: u32
  GUC_REGSET_SAVE_DEFAULT_VALUE :: u32
  GUC_REGSET_SAVE_CURRENT_VALUE :: u32
  GFX_RUN_LIST_ENABLE :: u32
  GFX_INTERRUPT_STEERING :: u32
  RING_HWS_PGA :: "u32 \<Rightarrow> u32"
  RING_MODE_GEN7 :: "u32 \<Rightarrow> u32"
  RING_IMR :: "u32 \<Rightarrow> u32"
  RING_FORCE_TO_NONPRIV :: "u32 \<Rightarrow> nat \<Rightarrow> u32"
  sizeof_guc_ads :: nat
  sizeof_guc_policies :: nat
  sizeof_guc_mmio_reg_state :: nat

text \<open>
  \<^verbatim>\<open>struct guc_mmio_reg\<close>: one entry of a register save list. The field \<^verbatim>\<open>value\<close> of
  the source is \<open>val\<close> here.
\<close>

record guc_mmio_reg =
  offset :: u32
  val :: u32
  flags :: u32

text \<open>
  \<^verbatim>\<open>struct guc_mmio_regset\<close>: the array \<^verbatim>\<open>registers[GUC_REGSET_MAX_REGISTERS]\<close> and the
  number of entries in use. A well-formed set has an array of exactly that length.
\<close>

record guc_mmio_regset =
  registers :: "guc_mmio_reg list"
  number_of_registers :: u32

definition regset_wf :: "config \<Rightarrow> guc_mmio_regset \<Rightarrow> bool" where
  "regset_wf k node \<longleftrightarrow> length (registers node) = unat (GUC_REGSET_MAX_REGISTERS k)"

text \<open>
  A save list as it stands in zeroed memory before the first entry is added: it is
  well-formed, no entry is in use and every value field is 0.
\<close>

definition regset_fresh :: "config \<Rightarrow> guc_mmio_regset \<Rightarrow> bool" where
  "regset_fresh k node \<longleftrightarrow>
     regset_wf k node \<and> number_of_registers node = 0 \<and>
     (\<forall>i < length (registers node). val (registers node ! i) = 0)"

subsection \<open>The macro \<^verbatim>\<open>GUC_ADD_MMIO_REG_ADS\<close>\<close>

text \<open>
  The three assignments of the macro to the entry at index \<^verbatim>\<open>__count\<close>: offset and flags
  are always written, the value only under \<^verbatim>\<open>if (defvalue)\<close>.
\<close>

definition write_reg :: "guc_mmio_reg \<Rightarrow> u32 \<Rightarrow> u32 \<Rightarrow> u32 \<Rightarrow> guc_mmio_reg" where
  "write_reg r reg_addr fl defvalue =
     (let r1 = r\<lparr>offset := reg_addr\<rparr>;
          r2 = r1\<lparr>flags := fl\<rparr>
      in if defvalue \<noteq> 0 then r2\<lparr>val := defvalue\<rparr> else r2)"

text \<open>
  The macro body. \<^verbatim>\<open>continue\<close> inside \<^verbatim>\<open>do { } while (0)\<close> leaves the macro's own loop, so
  a full list is left as it is; the second component tells whether \<^verbatim>\<open>WARN_ON\<close> fired.
\<close>

definition GUC_ADD_MMIO_REG_ADS ::
    "config \<Rightarrow> guc_mmio_regset \<Rightarrow> u32 \<Rightarrow> u32 \<Rightarrow> u32 \<Rightarrow> guc_mmio_regset \<times> bool" where
  "GUC_ADD_MMIO_REG_ADS k node reg_addr fl defvalue =
     (let count = number_of_registers node in
      if count \<ge> GUC_REGSET_MAX_REGISTERS k then (node, True)
      else (node\<lparr>registers := (registers node)
                     [unat count := write_reg (registers node ! unat count) reg_addr fl defvalue],
                  number_of_registers := count + 1\<rparr>, False))"

text \<open>
  A sequence of macro invocations on one list, each given as
  (register, flags, default value), counting the warnings.
\<close>

fun add_registers ::
    "config \<Rightarrow> (u32 \<times> u32 \<times> u32) list \<Rightarrow> guc_mmio_regset \<times> nat \<Rightarrow> guc_mmio_regset \<times> nat" where
  "add_registers k [] s = s"
| "add_registers k ((reg_addr, fl, defvalue) # cs) (node, warnings) =
     (case GUC_ADD_MMIO_REG_ADS k node reg_addr fl defvalue of
        (node', warned) \<Rightarrow>
          add_registers k cs (node', if warned then Suc warnings else warnings))"

subsection \<open>Scheduling policies\<close>

record guc_policy =
  execution_quantum :: u32
  preemption_time :: u32
  fault_time :: u32
  policy_flags :: u32

text \<open>
  \<^verbatim>\<open>struct guc_policies\<close>. The matrix \<^verbatim>\<open>policy[p][i]\<close> is read as \<open>policy pol p i\<close>;
  the source indexes it only inside the bounds of its two loops.
\<close>

record guc_policies =
  policy :: "nat \<Rightarrow> nat \<Rightarrow> guc_policy"
  dpc_promote_time :: u32
  is_valid :: u32
  max_num_work_items :: u32

definition guc_policy_init :: "config \<Rightarrow> guc_policy \<Rightarrow> guc_policy" where
  "guc_policy_init k p =
     p\<lparr>execution_quantum := POLICY_DEFAULT_EXECUTION_QUANTUM_US k,
       preemption_time := POLICY_DEFAULT_PREEMPTION_TIME_US k,
       fault_time := POLICY_DEFAULT_FAULT_TIME_US k,
       policy_flags := 0\<rparr>"

text \<open>
  \<^verbatim>\<open>guc_policies_init\<close> is a straight sequence of stores. To speak about their order
  the function is given as the list of its stores, in program order, and the
  execution of one store; the function itself runs the list from left to right.
  \<open>policy_cells\<close> is the nested loop over \<^verbatim>\<open>p\<close> and \<^verbatim>\<open>i\<close>, with one call of
  \<^verbatim>\<open>guc_policy_init\<close> for each cell.
\<close>

datatype policies_store =
  Set_dpc_promote_time
| Set_max_num_work_items
| Init_policy nat nat
| Set_is_valid

definition policy_cells :: "config \<Rightarrow> policies_store list" where
  "policy_cells k =
     concat (map (\<lambda>p. map (\<lambda>i. Init_policy p i)
                           [GUC_RENDER_ENGINE k ..< GUC_MAX_ENGINES_NUM k])
                 [0 ..< GUC_CLIENT_PRIORITY_NUM k])"

definition guc_policies_init_stores :: "config \<Rightarrow> policies_store list" where
  "guc_policies_init_stores k =
     [Set_dpc_promote_time, Set_max_num_work_items] @ policy_cells k @ [Set_is_valid]"

fun exec_store :: "config \<Rightarrow> guc_policies \<Rightarrow> policies_store \<Rightarrow> guc_policies" where
  "exec_store k pol Set_dpc_promote_time =
     pol\<lparr>dpc_promote_time := POLICY_DEFAULT_DPC_PROMOTE_TIME_US k\<rparr>"
| "exec_store k pol Set_max_num_work_items =
     pol\<lparr>max_num_work_items := POLICY_MAX_NUM_WI k\<rparr>"
| "exec_store k pol (Init_policy p i) =
     pol\<lparr>policy := (policy pol)(p := (policy pol p)(i := guc_policy_init k (policy pol p i)))\<rparr>"
| "exec_store k pol Set_is_valid = pol\<lparr>is_valid := 1\<rparr>"

definition guc_policies_init :: "config \<Rightarrow> guc_policies \<Rightarrow> guc_policies" where
  "guc_policies_init k pol = foldl (exec_store k) pol (guc_policies_init_stores k)"

text \<open>
  The order the specification gives for the stores, in its own words: every cell first,
  then the two table-level fields, the validity flag last. In a list of stores this says
  that no table-level store stands before a cell store, and that the list ends with the
  store of the flag, which occurs nowhere else.
\<close>

definition is_cell_store :: "policies_store \<Rightarrow> bool" where
  "is_cell_store s = (case s of Init_policy p i \<Rightarrow> True | _ \<Rightarrow> False)"

definition is_table_store :: "policies_store \<Rightarrow> bool" where
  "is_table_store s = (s = Set_dpc_promote_time \<or> s = Set_max_num_work_items)"

definition spec_store_order :: "policies_store list \<Rightarrow> bool" where
  "spec_store_order ss \<longleftrightarrow>
     (\<forall>i < length ss. \<forall>j < length ss.
        is_table_store (ss ! i) \<and> is_cell_store (ss ! j) \<longrightarrow> j < i) \<and>
     ss \<noteq> [] \<and> last ss = Set_is_valid \<and> Set_is_valid \<notin> set (butlast ss)"

subsection \<open>The blob and its construction\<close>

record guc_mmio_white_list =
  mmio_start :: u32
  offsets :: "u32 list"
  count :: u32

text \<open>
  \<^verbatim>\<open>struct guc_mmio_reg_state\<close> and \<^verbatim>\<open>struct guc_ads\<close>. The arrays indexed by
  \<^verbatim>\<open>engine->guc_id\<close> are functions of the index. C leaves an index outside the array
  undefined; an engine of the source has \<^verbatim>\<open>guc_id < GUC_MAX_ENGINES_NUM\<close>.
\<close>

record guc_mmio_reg_state =
  engine_reg :: "nat \<Rightarrow> guc_mmio_regset"
  white_list :: "nat \<Rightarrow> guc_mmio_white_list"

record guc_ads =
  reg_state_addr :: u32
  reg_state_buffer :: u32
  golden_context_lrca :: u32
  scheduler_policies :: u32
  eng_state_size :: "nat \<Rightarrow> u32"

text \<open>
  The packed local structure \<^verbatim>\<open>*blob\<close>. Its last member, the byte array
  \<^verbatim>\<open>reg_state_buffer\<close>, is never written by the function and has only its size here.
\<close>

record blob =
  ads :: guc_ads
  policies :: guc_policies
  reg_state :: guc_mmio_reg_state

record intel_engine_cs =
  engine_id :: nat
  guc_id :: nat
  mmio_base :: u32
  context_size :: u32

record i915_wa_reg =
  addr :: u32
  wa_value :: u32

text \<open>
  What the function reads from \<^verbatim>\<open>dev_priv\<close>: the engines in the order of
  \<^verbatim>\<open>for_each_engine\<close>, the workaround list \<^verbatim>\<open>workarounds->guc_reg[0 .. guc_count - 1]\<close>, the
  register read \<^verbatim>\<open>I915_READ\<close>, and the address \<^verbatim>\<open>intel_guc_ggtt_offset\<close> gives for the
  pinned state of the kernel context on the render engine.
\<close>

record drm_i915_private =
  engines :: "intel_engine_cs list"
  guc_reg :: "i915_wa_reg list"
  I915_READ :: "u32 \<Rightarrow> u32"
  kernel_ctx_ggtt_offset :: u32

text \<open>
  A vma as the function uses it: the address \<^verbatim>\<open>intel_guc_ggtt_offset(guc, vma)\<close> and
  the contents of the mapping \<^verbatim>\<open>kmap(page)\<close>, read as a blob.
\<close>

record i915_vma =
  ggtt_offset :: u32
  contents :: blob

record intel_guc =
  ads_vma :: "i915_vma option"

datatype error = BUG | Errno int

definition LR_HW_CONTEXT_SIZE :: nat where
  "LR_HW_CONTEXT_SIZE = 80 * 4"

definition skipped_offset :: "config \<Rightarrow> u32" where
  "skipped_offset k = of_nat (LRC_HEADER_PAGES k * PAGE_SIZE k)"

definition skipped_size :: "config \<Rightarrow> u32" where
  "skipped_size k = of_nat (LRC_PPHWSP_SZ k * PAGE_SIZE k + LR_HW_CONTEXT_SIZE)"

text \<open>Offsets of the members of the packed blob, and its size.\<close>

definition offsetof_policies :: "config \<Rightarrow> nat" where
  "offsetof_policies k = sizeof_guc_ads k"

definition offsetof_reg_state :: "config \<Rightarrow> nat" where
  "offsetof_reg_state k = sizeof_guc_ads k + sizeof_guc_policies k"

definition offsetof_reg_state_buffer :: "config \<Rightarrow> nat" where
  "offsetof_reg_state_buffer k =
     sizeof_guc_ads k + sizeof_guc_policies k + sizeof_guc_mmio_reg_state k"

definition sizeof_reg_state_buffer :: "config \<Rightarrow> nat" where
  "sizeof_reg_state_buffer k = GUC_S3_SAVE_SPACE_PAGES k * PAGE_SIZE k"

definition sizeof_blob :: "config \<Rightarrow> nat" where
  "sizeof_blob k = offsetof_reg_state_buffer k + sizeof_reg_state_buffer k"

text \<open>
  \<^verbatim>\<open>PAGE_ALIGN\<close> of the kernel rounds a size up to the next multiple of the page size.
\<close>

definition PAGE_ALIGN :: "config \<Rightarrow> nat \<Rightarrow> nat" where
  "PAGE_ALIGN k n = (n + PAGE_SIZE k - 1) div PAGE_SIZE k * PAGE_SIZE k"

text \<open>
  The macro invocations of one turn of the first engine loop, in program order, as
  (register, flags, default value).
\<close>

definition engine_save_list ::
    "config \<Rightarrow> drm_i915_private \<Rightarrow> intel_engine_cs \<Rightarrow> (u32 \<times> u32 \<times> u32) list" where
  "engine_save_list k dev engine =
     [(RING_HWS_PGA k (mmio_base engine),
       GUC_REGSET_ENGINERESET k OR GUC_REGSET_SAVE_CURRENT_VALUE k, 0),
      (RING_MODE_GEN7 k (mmio_base engine),
       GUC_REGSET_ENGINERESET k OR GUC_REGSET_SAVE_DEFAULT_VALUE k,
       I915_READ dev (RING_MODE_GEN7 k (mmio_base engine)) OR GFX_RUN_LIST_ENABLE k OR
         GFX_INTERRUPT_STEERING k OR push_bit 16 0xFFFF),
      (RING_IMR k (mmio_base engine),
       GUC_REGSET_ENGINERESET k OR GUC_REGSET_SAVE_CURRENT_VALUE k, 0)] @
     (if engine_id engine = RCS k
      then map (\<lambda>w. (addr w,
                     GUC_REGSET_ENGINERESET k OR GUC_REGSET_SAVE_DEFAULT_VALUE k,
                     wa_value w)) (guc_reg dev)
      else [])"

text \<open>One turn of the first engine loop: the save list, then the white list.\<close>

definition mmio_reg_state_engine ::
    "config \<Rightarrow> drm_i915_private \<Rightarrow> guc_mmio_reg_state \<times> nat \<Rightarrow> intel_engine_cs \<Rightarrow>
     guc_mmio_reg_state \<times> nat" where
  "mmio_reg_state_engine k dev s engine =
     (case s of (rs, warnings) \<Rightarrow>
      case add_registers k (engine_save_list k dev engine)
             (engine_reg rs (guc_id engine), warnings) of
        (eng_reg, warnings') \<Rightarrow>
          let rs1 = rs\<lparr>engine_reg := (engine_reg rs)(guc_id engine := eng_reg)\<rparr>;
              wl = white_list rs1 (guc_id engine);
              wl1 = wl\<lparr>mmio_start := RING_FORCE_TO_NONPRIV k (mmio_base engine) 0\<rparr>;
              wl2 = wl1\<lparr>count := of_nat (GUC_MMIO_WHITE_LIST_MAX k)\<rparr>;
              wl3 = wl2\<lparr>offsets :=
                      map (\<lambda>i. I915_READ dev (RING_FORCE_TO_NONPRIV k (mmio_base engine) i))
                          [0 ..< GUC_MMIO_WHITE_LIST_MAX k]\<rparr>
          in (rs1\<lparr>white_list := (white_list rs1)(guc_id engine := wl3)\<rparr>, warnings'))"

text \<open>One turn of the second engine loop.\<close>

definition eng_state_size_engine :: "config \<Rightarrow> guc_ads \<Rightarrow> intel_engine_cs \<Rightarrow> guc_ads" where
  "eng_state_size_engine k a engine =
     a\<lparr>eng_state_size :=
         (eng_state_size a)(guc_id engine := context_size engine - skipped_size k)\<rparr>"

text \<open>
  The stores of \<^verbatim>\<open>intel_guc_ads_create\<close> into the mapped blob, from \<^verbatim>\<open>kmap\<close> to
  \<^verbatim>\<open>kunmap\<close> (lines 123 to 218): \<open>base\<close> is \<^verbatim>\<open>intel_guc_ggtt_offset(guc, vma)\<close> and
  \<open>b0\<close> the content of the mapping. The result is the blob and the number of warnings.
\<close>

definition ads_populate ::
    "config \<Rightarrow> drm_i915_private \<Rightarrow> u32 \<Rightarrow> blob \<Rightarrow> blob \<times> nat" where
  "ads_populate k dev base b0 =
     (let b1 = b0\<lparr>policies := guc_policies_init k (policies b0)\<rparr>;
          (rs, warnings) = foldl (mmio_reg_state_engine k dev) (reg_state b1, 0) (engines dev);
          b2 = b1\<lparr>reg_state := rs\<rparr>;
          b3 = b2\<lparr>ads := (ads b2)\<lparr>golden_context_lrca :=
                                     kernel_ctx_ggtt_offset dev + skipped_offset k\<rparr>\<rparr>;
          b4 = b3\<lparr>ads := foldl (eng_state_size_engine k) (ads b3) (engines dev)\<rparr>;
          b5 = b4\<lparr>ads := (ads b4)\<lparr>scheduler_policies := base + of_nat (offsetof_policies k)\<rparr>\<rparr>;
          b6 = b5\<lparr>ads := (ads b5)\<lparr>reg_state_buffer :=
                                     base + of_nat (offsetof_reg_state_buffer k)\<rparr>\<rparr>;
          b7 = b6\<lparr>ads := (ads b6)\<lparr>reg_state_addr := base + of_nat (offsetof_reg_state k)\<rparr>\<rparr>
      in (b7, warnings))"

text \<open>
  \<^verbatim>\<open>intel_guc_ads_create\<close>. The allocator \<^verbatim>\<open>intel_guc_allocate_vma\<close> is a parameter: given
  the size it returns an error number or a vma. \<^verbatim>\<open>GEM_BUG_ON\<close> is taken as it is in a
  debug build. A return of 0 is \<open>Inr\<close>, with the new \<^verbatim>\<open>guc\<close> and the number of warnings.
\<close>

definition intel_guc_ads_create ::
    "config \<Rightarrow> drm_i915_private \<Rightarrow> (nat \<Rightarrow> int + i915_vma) \<Rightarrow> intel_guc \<Rightarrow>
     error + (intel_guc \<times> nat)" where
  "intel_guc_ads_create k dev intel_guc_allocate_vma guc =
     (if ads_vma guc \<noteq> None then Inl BUG
      else case intel_guc_allocate_vma (PAGE_ALIGN k (sizeof_blob k)) of
        Inl e \<Rightarrow> Inl (Errno e)
      | Inr vma \<Rightarrow>
         (case ads_populate k dev (ggtt_offset vma) (contents vma) of
            (b, warnings) \<Rightarrow> Inr (guc\<lparr>ads_vma := Some (vma\<lparr>contents := b\<rparr>)\<rparr>, warnings)))"

section \<open>The reset isolation selftest (selftests/intel\_shit.c)\<close>

subsection \<open>The worker \<^verbatim>\<open>shit_active_engine\<close>\<close>

text \<open>
  The submit loop of a worker, one event at a time. Requests are numbered in the order
  \<^verbatim>\<open>i915_request_alloc\<close> returns them. A request is in flight from
  \<^verbatim>\<open>i915_request_add\<close> until the engine completes it; completion is an event of the
  environment. \<^verbatim>\<open>i915_request_wait(old, 0, MAX_SCHEDULE_TIMEOUT)\<close> returns only when
  \<^verbatim>\<open>old\<close> has completed. The model starts where the loop is entered, with both
  contexts created and both slots null.
\<close>

datatype worker_pc = Loop_head | Waiting nat | Exited

record worker =
  pc :: worker_pc
  count_w :: u64
  rq :: "nat option list"
  next_request :: nat
  in_flight :: "nat set"
  err_w :: int

definition worker_init :: worker where
  "worker_init = \<lparr>pc = Loop_head, count_w = 0, rq = [None, None], next_request = 0,
                   in_flight = {}, err_w = 0\<rparr>"

datatype worker_event =
  Submit
| Alloc_fails int
| Wait_returns
| Completes nat
| Should_stop

text \<open>
  \<open>Submit\<close> is one turn of the loop body up to \<^verbatim>\<open>mutex_unlock\<close> with a successful
  allocation: \<^verbatim>\<open>idx = count++ & 1\<close>, \<^verbatim>\<open>old = rq[idx]\<close>, \<^verbatim>\<open>rq[idx] = new\<close>,
  \<^verbatim>\<open>i915_request_add(new)\<close>. With \<^verbatim>\<open>old\<close> set the worker then waits for it; with
  \<^verbatim>\<open>old\<close> null it is at the loop head again. An event that cannot happen in a state
  gives \<open>None\<close>.
\<close>

fun worker_step :: "worker \<Rightarrow> worker_event \<Rightarrow> worker option" where
  "worker_step w Submit =
     (if pc w \<noteq> Loop_head then None
      else let idx = unat (count_w w AND 1);
               old = rq w ! idx;
               new = next_request w
           in Some (w\<lparr>count_w := count_w w + 1,
                      rq := (rq w)[idx := Some new],
                      next_request := Suc new,
                      in_flight := insert new (in_flight w),
                      pc := (case old of None \<Rightarrow> Loop_head | Some r \<Rightarrow> Waiting r)\<rparr>))"
| "worker_step w (Alloc_fails e) =
     (if pc w \<noteq> Loop_head then None
      else Some (w\<lparr>count_w := count_w w + 1, err_w := e, pc := Exited\<rparr>))"
| "worker_step w Wait_returns =
     (case pc w of
        Waiting r \<Rightarrow> if r \<in> in_flight w then None else Some (w\<lparr>pc := Loop_head\<rparr>)
      | _ \<Rightarrow> None)"
| "worker_step w (Completes r) =
     (if r \<in> in_flight w then Some (w\<lparr>in_flight := in_flight w - {r}\<rparr>) else None)"
| "worker_step w Should_stop =
     (if pc w \<noteq> Loop_head then None else Some (w\<lparr>pc := Exited\<rparr>))"

fun worker_run :: "worker \<Rightarrow> worker_event list \<Rightarrow> worker option" where
  "worker_run w [] = Some w"
| "worker_run w (e # es) =
     (case worker_step w e of None \<Rightarrow> None | Some w' \<Rightarrow> worker_run w' es)"

text \<open>
  The requests held in the two slots, the request the worker waits for, and the
  invariant of the loop: every request in flight is in a slot or is the one awaited.
\<close>

definition slot_requests :: "worker \<Rightarrow> nat set" where
  "slot_requests w = {r. Some r \<in> set (rq w)}"

definition awaited :: "worker \<Rightarrow> nat set" where
  "awaited w = (case pc w of Waiting r \<Rightarrow> {r} | _ \<Rightarrow> {})"

definition worker_inv :: "worker \<Rightarrow> bool" where
  "worker_inv w \<longleftrightarrow> length (rq w) = 2 \<and> in_flight w \<subseteq> slot_requests w \<union> awaited w"

subsection \<open>The harness \<^verbatim>\<open>igt_active_engines\<close>\<close>

text \<open>
  The harness runs against the driver and the hardware. Their state is a type
  parameter \<open>'w\<close>; every function the harness calls is a field of the environment, and
  a call that can change the state returns the new one. Workers and hardware act inside
  these calls. Engines are known by their \<^verbatim>\<open>id\<close>. The harness state is the state of the
  world and the list of calls made so far, each with its arguments and result.
\<close>

datatype event =
  Ev_pr_info
| Ev_pr_err
| Ev_reset_count u64
| Ev_reset_engine_count nat u64
| Ev_kthread_run nat int
| Ev_kthread_stop nat int
| Ev_set_bit nat
| Ev_clear_bit nat
| Ev_reset_engine nat int
| Ev_cond_resched
| Ev_terminally_wedged bool
| Ev_runtime_pm_get
| Ev_runtime_pm_put

type_synonym 'w hstate = "'w \<times> event list"

text \<open>
  \<open>kthread_run\<close> gives 0 for a task and the value of \<^verbatim>\<open>PTR_ERR\<close> otherwise.
  \<open>deadline_tests\<close> stands for the clock: it tells, when \<^verbatim>\<open>IGT_TIMEOUT\<close> fixes the
  deadline, how many tests \<^verbatim>\<open>time_before(jiffies, end_time)\<close> succeed before the
  deadline has passed. \<open>stack_resets\<close> is the content of the uninitialised array
  \<^verbatim>\<open>resets\<close>. \<open>i915_subtests\<close> is the runner of the selftest framework, given the
  list of subtests. The reference counts of the tasks (\<^verbatim>\<open>get_task_struct\<close>,
  \<^verbatim>\<open>put_task_struct\<close>) are left out.
\<close>

record 'w i915_env =
  intel_has_gpu_reset :: "'w \<Rightarrow> bool"
  intel_has_reset_engine :: "'w \<Rightarrow> bool"
  for_each_engine :: "nat list"
  i915_reset_count :: "'w \<Rightarrow> u64"
  i915_reset_engine_count :: "'w \<Rightarrow> nat \<Rightarrow> u64"
  kthread_run :: "nat \<Rightarrow> 'w \<Rightarrow> int \<times> 'w"
  kthread_stop :: "nat \<Rightarrow> 'w \<Rightarrow> int \<times> 'w"
  set_bit_reset_engine :: "nat \<Rightarrow> 'w \<Rightarrow> 'w"
  clear_bit_reset_engine :: "nat \<Rightarrow> 'w \<Rightarrow> 'w"
  i915_reset_engine :: "nat \<Rightarrow> 'w \<Rightarrow> int \<times> 'w"
  deadline_tests :: "'w \<Rightarrow> nat"
  cond_resched :: "'w \<Rightarrow> 'w"
  i915_terminally_wedged :: "'w \<Rightarrow> bool"
  intel_runtime_pm_get :: "'w \<Rightarrow> 'w"
  intel_runtime_pm_put :: "'w \<Rightarrow> 'w"
  i915_subtests :: "('w hstate \<Rightarrow> int \<times> 'w hstate) list \<Rightarrow> 'w hstate \<Rightarrow> int \<times> 'w hstate"
  stack_resets :: "nat \<Rightarrow> u64"

definition EIO :: int where
  "EIO = 5"

definition log :: "event \<Rightarrow> 'w hstate \<Rightarrow> 'w hstate" where
  "log e s = (fst s, snd s @ [e])"

definition read_reset_count :: "'w i915_env \<Rightarrow> 'w hstate \<Rightarrow> u64 \<times> 'w hstate" where
  "read_reset_count env s =
     (let v = i915_reset_count env (fst s) in (v, log (Ev_reset_count v) s))"

definition read_reset_engine_count ::
    "'w i915_env \<Rightarrow> nat \<Rightarrow> 'w hstate \<Rightarrow> u64 \<times> 'w hstate" where
  "read_reset_engine_count env e s =
     (let v = i915_reset_engine_count env (fst s) e in (v, log (Ev_reset_engine_count e v) s))"

definition call_kthread_run :: "'w i915_env \<Rightarrow> nat \<Rightarrow> 'w hstate \<Rightarrow> int \<times> 'w hstate" where
  "call_kthread_run env e s =
     (case kthread_run env e (fst s) of (r, w') \<Rightarrow> (r, (w', snd s @ [Ev_kthread_run e r])))"

definition call_kthread_stop :: "'w i915_env \<Rightarrow> nat \<Rightarrow> 'w hstate \<Rightarrow> int \<times> 'w hstate" where
  "call_kthread_stop env e s =
     (case kthread_stop env e (fst s) of (r, w') \<Rightarrow> (r, (w', snd s @ [Ev_kthread_stop e r])))"

definition call_reset_engine :: "'w i915_env \<Rightarrow> nat \<Rightarrow> 'w hstate \<Rightarrow> int \<times> 'w hstate" where
  "call_reset_engine env e s =
     (case i915_reset_engine env e (fst s) of (r, w') \<Rightarrow> (r, (w', snd s @ [Ev_reset_engine e r])))"

definition call_set_bit :: "'w i915_env \<Rightarrow> nat \<Rightarrow> 'w hstate \<Rightarrow> 'w hstate" where
  "call_set_bit env e s = (set_bit_reset_engine env e (fst s), snd s @ [Ev_set_bit e])"

definition call_clear_bit :: "'w i915_env \<Rightarrow> nat \<Rightarrow> 'w hstate \<Rightarrow> 'w hstate" where
  "call_clear_bit env e s = (clear_bit_reset_engine env e (fst s), snd s @ [Ev_clear_bit e])"

definition call_cond_resched :: "'w i915_env \<Rightarrow> 'w hstate \<Rightarrow> 'w hstate" where
  "call_cond_resched env s = (cond_resched env (fst s), snd s @ [Ev_cond_resched])"

text \<open>
  The loop that starts a worker on every engine but the target (lines 116 to 134): the
  result is \<^verbatim>\<open>err\<close> (not 0 on \<^verbatim>\<open>goto unwind\<close>), the arrays \<^verbatim>\<open>threads\<close> and \<^verbatim>\<open>resets\<close>,
  and the state.
\<close>

fun start_threads ::
    "'w i915_env \<Rightarrow> nat \<Rightarrow> nat list \<Rightarrow> (nat \<Rightarrow> bool) \<Rightarrow> (nat \<Rightarrow> u64) \<Rightarrow> 'w hstate \<Rightarrow>
     int \<times> (nat \<Rightarrow> bool) \<times> (nat \<Rightarrow> u64) \<times> 'w hstate" where
  "start_threads env engine [] threads resets s = (0, threads, resets, s)"
| "start_threads env engine (tmp # rest) threads resets s =
     (if tmp = engine then start_threads env engine rest threads resets s
      else case read_reset_engine_count env tmp s of
        (v, s1) \<Rightarrow>
          (case call_kthread_run env tmp s1 of
             (tsk, s2) \<Rightarrow>
               if tsk \<noteq> 0 then (tsk, threads, resets(tmp := v), s2)
               else start_threads env engine rest (threads(tmp := True)) (resets(tmp := v)) s2))"

text \<open>
  The \<^verbatim>\<open>do { } while (time_before(jiffies, end_time))\<close> loop (lines 137 to 146).
  \<open>reset_attempt\<close> is its body, \<^verbatim>\<open>err\<close> being 0 when the loop is entered; the
  number counts the tests that still succeed.
\<close>

definition reset_attempt :: "'w i915_env \<Rightarrow> bool \<Rightarrow> nat \<Rightarrow> 'w hstate \<Rightarrow> int \<times> 'w hstate" where
  "reset_attempt env do_reset engine s =
     (if do_reset
      then case call_reset_engine env engine s of
             (err, s1) \<Rightarrow> if err \<noteq> 0 then (err, log Ev_pr_err s1) else (err, s1)
      else (0, s))"

fun reset_loop :: "'w i915_env \<Rightarrow> bool \<Rightarrow> nat \<Rightarrow> nat \<Rightarrow> 'w hstate \<Rightarrow> int \<times> 'w hstate" where
  "reset_loop env do_reset engine 0 s = reset_attempt env do_reset engine s"
| "reset_loop env do_reset engine (Suc n) s =
     (case reset_attempt env do_reset engine s of
        (err, s1) \<Rightarrow> if err \<noteq> 0 then (err, s1) else reset_loop env do_reset engine n s1)"

text \<open>The loop after the label \<^verbatim>\<open>unwind\<close> (lines 151 to 174).\<close>

fun unwind ::
    "'w i915_env \<Rightarrow> (nat \<Rightarrow> bool) \<Rightarrow> (nat \<Rightarrow> u64) \<Rightarrow> nat list \<Rightarrow> int \<Rightarrow> 'w hstate \<Rightarrow>
     int \<times> 'w hstate" where
  "unwind env threads resets [] err s = (err, s)"
| "unwind env threads resets (tmp # rest) err s =
     (if \<not> threads tmp then unwind env threads resets rest err s
      else case call_kthread_stop env tmp s of
        (ret, s1) \<Rightarrow>
          (case (if ret \<noteq> 0 then (if err = 0 then ret else err, log Ev_pr_err s1)
                 else (err, s1)) of
             (err1, s2) \<Rightarrow>
               (case read_reset_engine_count env tmp s2 of
                  (v, s3) \<Rightarrow>
                    if resets tmp \<noteq> v
                    then unwind env threads resets rest (- EIO)
                           (log Ev_pr_err (snd (read_reset_engine_count env tmp s3)))
                    else unwind env threads resets rest err1 s3)))"

text \<open>
  One turn of the outer loop for the target \<open>engine\<close> (lines 110 to 180), up to the
  test \<^verbatim>\<open>if (err) break\<close>. \<^verbatim>\<open>err\<close> is 0 at its start.
\<close>

definition target_round ::
    "'w i915_env \<Rightarrow> bool \<Rightarrow> nat \<Rightarrow> 'w hstate \<Rightarrow> int \<times> 'w hstate" where
  "target_round env do_reset engine s =
     (case read_reset_count env s of
        (global, s1) \<Rightarrow>
          let n = deadline_tests env (fst s1) in
          (case start_threads env engine (for_each_engine env) (\<lambda>_. False) (stack_resets env) s1 of
             (err1, threads, resets, s2) \<Rightarrow>
               (case (if err1 \<noteq> 0 then (err1, s2)
                      else case reset_loop env do_reset engine n (call_set_bit env engine s2) of
                             (e, s') \<Rightarrow> (e, call_clear_bit env engine s')) of
                  (err2, s3) \<Rightarrow>
                    (case unwind env threads resets (for_each_engine env) err2 s3 of
                       (err3, s4) \<Rightarrow>
                         (case read_reset_count env s4 of
                            (g, s5) \<Rightarrow>
                              if global \<noteq> g
                              then (- EIO, log Ev_pr_err (snd (read_reset_count env s5)))
                              else (err3, s5))))))"

text \<open>The outer loop over the targets: it stops at the first turn that ends with an error.\<close>

fun target_rounds :: "'w i915_env \<Rightarrow> bool \<Rightarrow> nat list \<Rightarrow> 'w hstate \<Rightarrow> int \<times> 'w hstate" where
  "target_rounds env do_reset [] s = (0, s)"
| "target_rounds env do_reset (engine # rest) s =
     (case target_round env do_reset engine s of
        (err, s1) \<Rightarrow>
          if err \<noteq> 0 then (err, s1)
          else target_rounds env do_reset rest (call_cond_resched env s1))"

definition igt_active_engines :: "'w i915_env \<Rightarrow> bool \<Rightarrow> 'w hstate \<Rightarrow> int \<times> 'w hstate" where
  "igt_active_engines env do_reset s =
     (if \<not> intel_has_reset_engine env (fst s) then (0, s)
      else case target_rounds env do_reset (for_each_engine env) (log Ev_pr_info s) of
        (err, s1) \<Rightarrow>
          let wedged = i915_terminally_wedged env (fst s1);
              s2 = log (Ev_terminally_wedged wedged) s1
          in (if wedged then - EIO else err, s2))"

definition igt_active_engines_reset :: "'w i915_env \<Rightarrow> 'w hstate \<Rightarrow> int \<times> 'w hstate" where
  "igt_active_engines_reset env s = igt_active_engines env True s"

definition igt_active_engines_no_reset :: "'w i915_env \<Rightarrow> 'w hstate \<Rightarrow> int \<times> 'w hstate" where
  "igt_active_engines_no_reset env s = igt_active_engines env False s"

definition intel_shit_live_selftests :: "'w i915_env \<Rightarrow> 'w hstate \<Rightarrow> int \<times> 'w hstate" where
  "intel_shit_live_selftests env s =
     (if \<not> intel_has_gpu_reset env (fst s) then (0, s)
      else let s1 = (intel_runtime_pm_get env (fst s), snd s @ [Ev_runtime_pm_get]) in
           case i915_subtests env
                  [igt_active_engines_reset env, igt_active_engines_no_reset env] s1 of
             (err, s2) \<Rightarrow> (err, (intel_runtime_pm_put env (fst s2), snd s2 @ [Ev_runtime_pm_put])))"

subsection \<open>The verdict of the harness in closed form\<close>

text \<open>
  What the harness reports, written as a function of the state of the world and of the
  calls to the environment alone, without the arrays \<^verbatim>\<open>threads\<close> and \<^verbatim>\<open>resets\<close>, the
  variable \<^verbatim>\<open>err\<close> and the log. It is what claim C2, as amended below, says in words,
  and the harness of the source is compared with it.

  \<open>workers_started\<close>: a worker is started on every engine but the target, in the order
  of the engines, until a start fails; each started worker is listed with the value
  its engine's reset counter had just before the start. \<open>resets_attempted\<close>: the target
  is reset until a reset fails or the deadline has passed. \<open>workers_joined\<close>: every
  started worker is stopped and joined, in order; for each the return value of the join
  is listed, and whether the counter of its engine, in the state after the join,
  differs from the value before the start.
\<close>

fun first_error :: "int list \<Rightarrow> int" where
  "first_error [] = 0"
| "first_error (r # rs) = (if r \<noteq> 0 then r else first_error rs)"

fun workers_started ::
    "'w i915_env \<Rightarrow> nat \<Rightarrow> nat list \<Rightarrow> 'w \<Rightarrow> (nat \<times> u64) list \<times> int \<times> 'w" where
  "workers_started env target [] w = ([], 0, w)"
| "workers_started env target (e # es) w =
     (if e = target then workers_started env target es w
      else case kthread_run env e w of
        (r, w1) \<Rightarrow>
          if r \<noteq> 0 then ([], r, w1)
          else case workers_started env target es w1 of
            (ws, err, w2) \<Rightarrow> ((e, i915_reset_engine_count env w e) # ws, err, w2))"

fun resets_attempted :: "'w i915_env \<Rightarrow> nat \<Rightarrow> nat \<Rightarrow> 'w \<Rightarrow> int \<times> 'w" where
  "resets_attempted env target 0 w = i915_reset_engine env target w"
| "resets_attempted env target (Suc n) w =
     (case i915_reset_engine env target w of
        (r, w1) \<Rightarrow> if r \<noteq> 0 then (r, w1) else resets_attempted env target n w1)"

fun workers_joined ::
    "'w i915_env \<Rightarrow> (nat \<times> u64) list \<Rightarrow> 'w \<Rightarrow> (int \<times> bool) list \<times> 'w" where
  "workers_joined env [] w = ([], w)"
| "workers_joined env ((e, v0) # ws) w =
     (case kthread_stop env e w of
        (r, w1) \<Rightarrow>
          case workers_joined env ws w1 of
            (js, w2) \<Rightarrow> ((r, i915_reset_engine_count env w1 e \<noteq> v0) # js, w2))"

text \<open>
  The verdict of the turn for one target: \<open>-EIO\<close> when the global counter after the
  joins differs from its value at the start of the turn, or when the counter of the
  engine of some joined worker has changed; otherwise the error of the failed start or
  of the failed reset; otherwise the first error a join returned; otherwise 0. The
  counter of the target occurs nowhere.
\<close>

definition round_verdict :: "'w i915_env \<Rightarrow> bool \<Rightarrow> nat \<Rightarrow> 'w \<Rightarrow> int \<times> 'w" where
  "round_verdict env do_reset target w =
     (case workers_started env target (for_each_engine env) w of
        (ws, err1, w1) \<Rightarrow>
          case (if err1 \<noteq> 0 then (err1, w1)
                else case (if do_reset
                           then resets_attempted env target (deadline_tests env w)
                                  (set_bit_reset_engine env target w1)
                           else (0, set_bit_reset_engine env target w1)) of
                       (r, wb) \<Rightarrow> (r, clear_bit_reset_engine env target wb)) of
            (err2, w2) \<Rightarrow>
              case workers_joined env ws w2 of
                (js, w3) \<Rightarrow>
                  (if i915_reset_count env w3 \<noteq> i915_reset_count env w then - EIO
                   else if \<exists>j \<in> set js. snd j then - EIO
                   else if err2 \<noteq> 0 then err2
                   else first_error (map fst js), w3))"

text \<open>
  The verdict of the harness: without support for a reset of one engine, 0; otherwise
  the targets take their turns in order until a turn ends with an error, and the result
  is \<open>-EIO\<close> when the device is terminally wedged after the last turn, the error of
  the turn that failed otherwise, and 0 when no turn failed.
\<close>

fun rounds_verdict :: "'w i915_env \<Rightarrow> bool \<Rightarrow> nat list \<Rightarrow> 'w \<Rightarrow> int \<times> 'w" where
  "rounds_verdict env do_reset [] w = (0, w)"
| "rounds_verdict env do_reset (target # rest) w =
     (case round_verdict env do_reset target w of
        (err, w1) \<Rightarrow>
          if err \<noteq> 0 then (err, w1)
          else rounds_verdict env do_reset rest (cond_resched env w1))"

definition harness_verdict :: "'w i915_env \<Rightarrow> bool \<Rightarrow> 'w \<Rightarrow> int \<times> 'w" where
  "harness_verdict env do_reset w =
     (if \<not> intel_has_reset_engine env w then (0, w)
      else case rounds_verdict env do_reset (for_each_engine env) w of
        (err, w1) \<Rightarrow> (if i915_terminally_wedged env w1 then - EIO else err, w1))"

text \<open>
  What the calls logged by \<open>start_threads\<close> and by \<open>unwind\<close> look like, given the
  arrays \<^verbatim>\<open>threads\<close> and \<^verbatim>\<open>resets\<close> and the error the loop ends with.
\<close>

definition start_event :: "nat \<Rightarrow> nat list \<Rightarrow> (nat \<Rightarrow> u64) \<Rightarrow> int \<Rightarrow> event \<Rightarrow> bool" where
  "start_event engine es resets err e \<longleftrightarrow>
     (\<exists>tmp v. e = Ev_reset_engine_count tmp v \<and> tmp \<in> set es \<and> tmp \<noteq> engine \<and>
              resets tmp = v) \<or>
     (\<exists>tmp r. e = Ev_kthread_run tmp r \<and> (r \<noteq> 0 \<longrightarrow> r = err))"

definition unwind_event ::
    "(nat \<Rightarrow> bool) \<Rightarrow> (nat \<Rightarrow> u64) \<Rightarrow> nat list \<Rightarrow> int \<Rightarrow> event \<Rightarrow> bool" where
  "unwind_event threads resets es err' e \<longleftrightarrow>
     e = Ev_pr_err \<or>
     (\<exists>tmp r. e = Ev_kthread_stop tmp r \<and> threads tmp) \<or>
     (\<exists>tmp v. e = Ev_reset_engine_count tmp v \<and> threads tmp \<and> tmp \<in> set es \<and>
              (v \<noteq> resets tmp \<longrightarrow> err' = - EIO))"

section \<open>Concrete inputs\<close>

text \<open>
  A configuration with a page of 4096 bytes, one header page and one page of PPHWSP,
  as the comments of \<^verbatim>\<open>intel_guc_ads_create\<close> say; the other values are samples.
\<close>

definition sample_config :: config where
  "sample_config =
     \<lparr>PAGE_SIZE = 4096, LRC_HEADER_PAGES = 1, LRC_PPHWSP_SZ = 1,
      GUC_S3_SAVE_SPACE_PAGES = 10, GUC_REGSET_MAX_REGISTERS = 25,
      GUC_MMIO_WHITE_LIST_MAX = 12, GUC_CLIENT_PRIORITY_NUM = 4, GUC_RENDER_ENGINE = 0,
      GUC_MAX_ENGINES_NUM = 5, RCS = 0,
      POLICY_DEFAULT_DPC_PROMOTE_TIME_US = 500000, POLICY_MAX_NUM_WI = 15,
      POLICY_DEFAULT_EXECUTION_QUANTUM_US = 1000000,
      POLICY_DEFAULT_PREEMPTION_TIME_US = 500000, POLICY_DEFAULT_FAULT_TIME_US = 250000,
      GUC_REGSET_ENGINERESET = 1, GUC_REGSET_SAVE_DEFAULT_VALUE = 2,
      GUC_REGSET_SAVE_CURRENT_VALUE = 4,
      GFX_RUN_LIST_ENABLE = 0x8000, GFX_INTERRUPT_STEERING = 0x4000,
      RING_HWS_PGA = (\<lambda>b. b + 0x80), RING_MODE_GEN7 = (\<lambda>b. b + 0x29c),
      RING_IMR = (\<lambda>b. b + 0xa8), RING_FORCE_TO_NONPRIV = (\<lambda>b i. b + 0x4D0 + of_nat i * 4),
      sizeof_guc_ads = 64, sizeof_guc_policies = 988, sizeof_guc_mmio_reg_state = 1820\<rparr>"

text \<open>The same with a save list of capacity 2.\<close>

definition small_config :: config where
  "small_config = sample_config\<lparr>GUC_REGSET_MAX_REGISTERS := 2\<rparr>"


text \<open>An empty save list of capacity 2 whose memory holds old values.\<close>

definition stale_regset :: guc_mmio_regset where
  "stale_regset =
     \<lparr>registers = [\<lparr>offset = 0x11, val = 0xAA, flags = 0x7\<rparr>,
                   \<lparr>offset = 0x22, val = 0xBB, flags = 0x7\<rparr>],
      number_of_registers = 0\<rparr>"

text \<open>A blob of zeroes, with save lists of the configured capacity.\<close>

definition zero_blob :: "config \<Rightarrow> blob" where
  "zero_blob k =
     \<lparr>ads = \<lparr>reg_state_addr = 0, reg_state_buffer = 0, golden_context_lrca = 0,
             scheduler_policies = 0, eng_state_size = (\<lambda>_. 0)\<rparr>,
      policies = \<lparr>policy = (\<lambda>_ _. \<lparr>execution_quantum = 0, preemption_time = 0,
                                     fault_time = 0, policy_flags = 0\<rparr>),
                  dpc_promote_time = 0, is_valid = 0, max_num_work_items = 0\<rparr>,
      reg_state =
        \<lparr>engine_reg = (\<lambda>_. \<lparr>registers = replicate (unat (GUC_REGSET_MAX_REGISTERS k))
                                            \<lparr>offset = 0, val = 0, flags = 0\<rparr>,
                              number_of_registers = 0\<rparr>),
         white_list = (\<lambda>_. \<lparr>mmio_start = 0,
                              offsets = replicate (GUC_MMIO_WHITE_LIST_MAX k) 0,
                              count = 0\<rparr>)\<rparr>\<rparr>"

text \<open>
  A device with a render engine and a video engine, one workaround register, registers
  that read as 0x200, and the kernel context pinned at 0x100000; an allocator that
  returns a zeroed vma at 0x200000.
\<close>

definition sample_rcs :: intel_engine_cs where
  "sample_rcs = \<lparr>engine_id = 0, guc_id = 0, mmio_base = 0x2000, context_size = 0x16000\<rparr>"

definition sample_vcs :: intel_engine_cs where
  "sample_vcs = \<lparr>engine_id = 2, guc_id = 1, mmio_base = 0x12000, context_size = 0x14000\<rparr>"

definition sample_dev :: drm_i915_private where
  "sample_dev =
     \<lparr>engines = [sample_rcs, sample_vcs],
      guc_reg = [\<lparr>addr = 0x7014, wa_value = 0x100\<rparr>],
      I915_READ = (\<lambda>_. 0x200),
      kernel_ctx_ggtt_offset = 0x100000\<rparr>"

definition sample_vma :: i915_vma where
  "sample_vma = \<lparr>ggtt_offset = 0x200000, contents = zero_blob sample_config\<rparr>"

definition sample_alloc :: "nat \<Rightarrow> int + i915_vma" where
  "sample_alloc n = Inr sample_vma"

definition sample_guc :: intel_guc where
  "sample_guc = \<lparr>ads_vma = None\<rparr>"

text \<open>
  A simulated device with the engines 0 and 1, for the harness. Workers start and stop
  without error, the deadline passes after one successful test (two reset attempts for
  each target), and a reset of an engine succeeds and adds one to the counter of that
  engine; with \<open>bump_global\<close> it adds one to the global counter as well.
\<close>

record sim_world =
  sim_reset_count :: u64
  sim_engine_count :: "nat \<Rightarrow> u64"

definition sim_start :: sim_world where
  "sim_start = \<lparr>sim_reset_count = 0, sim_engine_count = (\<lambda>_. 0)\<rparr>"

definition sim_reset_engine :: "bool \<Rightarrow> nat \<Rightarrow> sim_world \<Rightarrow> int \<times> sim_world" where
  "sim_reset_engine bump_global e w =
     (0, \<lparr>sim_reset_count = (if bump_global then sim_reset_count w + 1 else sim_reset_count w),
          sim_engine_count = (sim_engine_count w)(e := sim_engine_count w e + 1)\<rparr>)"

fun sim_subtests ::
    "(sim_world hstate \<Rightarrow> int \<times> sim_world hstate) list \<Rightarrow> sim_world hstate \<Rightarrow>
     int \<times> sim_world hstate" where
  "sim_subtests [] s = (0, s)"
| "sim_subtests (t # ts) s =
     (case t s of (err, s') \<Rightarrow> if err \<noteq> 0 then (err, s') else sim_subtests ts s')"

definition sim_env :: "bool \<Rightarrow> sim_world i915_env" where
  "sim_env bump_global =
     \<lparr>intel_has_gpu_reset = (\<lambda>_. True),
      intel_has_reset_engine = (\<lambda>_. True),
      for_each_engine = [0, 1],
      i915_reset_count = sim_reset_count,
      i915_reset_engine_count = sim_engine_count,
      kthread_run = (\<lambda>e w. (0, w)),
      kthread_stop = (\<lambda>e w. (0, w)),
      set_bit_reset_engine = (\<lambda>e w. w),
      clear_bit_reset_engine = (\<lambda>e w. w),
      i915_reset_engine = sim_reset_engine bump_global,
      deadline_tests = (\<lambda>_. 1),
      cond_resched = (\<lambda>w. w),
      i915_terminally_wedged = (\<lambda>_. False),
      intel_runtime_pm_get = (\<lambda>w. w),
      intel_runtime_pm_put = (\<lambda>w. w),
      i915_subtests = sim_subtests,
      stack_resets = (\<lambda>_. 0)\<rparr>"

text \<open>The same device without support for a reset of one engine, or for any reset.\<close>

definition sim_env_no_engine_reset :: "sim_world i915_env" where
  "sim_env_no_engine_reset = (sim_env False)\<lparr>intel_has_reset_engine := (\<lambda>_. False)\<rparr>"

definition sim_env_no_gpu_reset :: "sim_world i915_env" where
  "sim_env_no_gpu_reset =
     (sim_env False)\<lparr>intel_has_gpu_reset := (\<lambda>_. False), intel_has_reset_engine := (\<lambda>_. False)\<rparr>"


text \<open>
  The same device when it is terminally wedged; and a device where the reset of an engine
  resets engine 1 as well and every worker ends with \<^verbatim>\<open>-ENOMEM\<close>.
\<close>

definition sim_env_wedged :: "sim_world i915_env" where
  "sim_env_wedged = (sim_env False)\<lparr>i915_terminally_wedged := (\<lambda>_. True)\<rparr>"

definition sim_env_innocent :: "sim_world i915_env" where
  "sim_env_innocent =
     (sim_env False)\<lparr>kthread_stop := (\<lambda>e w. (- 12, w)),
                      i915_reset_engine :=
                        (\<lambda>e w. sim_reset_engine False 1 (snd (sim_reset_engine False e w)))\<rparr>"
section \<open>The register save list\<close>

lemma unat_succ_below: "(n::u32) < m \<Longrightarrow> unat (n + 1) = Suc (unat n)"
proof -
  assume "n < m"
  then have "unat n < unat m" by (simp add: word_less_nat_alt)
  moreover have "unat m < 2 ^ 32" using unsigned_less[of m, where 'a=nat] by simp
  ultimately have "unat n + 1 < 2 ^ 32" by simp
  then show ?thesis by (simp add: unat_word_ariths)
qed

lemma add_reg_below:
  "number_of_registers node < GUC_REGSET_MAX_REGISTERS k \<Longrightarrow>
   GUC_ADD_MMIO_REG_ADS k node r f d =
     (node\<lparr>registers := (registers node)
              [unat (number_of_registers node) :=
                 write_reg (registers node ! unat (number_of_registers node)) r f d],
           number_of_registers := number_of_registers node + 1\<rparr>, False)"
  by (simp add: GUC_ADD_MMIO_REG_ADS_def Let_def not_le[symmetric])




lemma write_reg_fields:
  "offset (write_reg e r f d) = r"
  "flags (write_reg e r f d) = f"
  "val (write_reg e r f d) = (if d \<noteq> 0 then d else val e)"
  by (simp_all add: write_reg_def Let_def)

lemma add_registers_fit:
  "regset_wf k node \<Longrightarrow>
   unat (number_of_registers node) + length cs \<le> unat (GUC_REGSET_MAX_REGISTERS k) \<Longrightarrow>
   add_registers k cs (node, w) = (node', w') \<Longrightarrow>
   w' = w \<and> regset_wf k node' \<and>
   unat (number_of_registers node') = unat (number_of_registers node) + length cs \<and>
   (\<forall>i < length (registers node).
      registers node' ! i =
        (if unat (number_of_registers node) \<le> i \<and> i < unat (number_of_registers node) + length cs
         then (case cs ! (i - unat (number_of_registers node)) of
                 (r, f, d) \<Rightarrow> write_reg (registers node ! i) r f d)
         else registers node ! i))"
proof (induction cs arbitrary: node)
  case Nil
  then show ?case by auto
next
  case (Cons c cs)
  obtain r f d where c: "c = (r, f, d)" by (cases c)
  let ?n = "number_of_registers node"
  let ?node1 = "node\<lparr>registers := (registers node)
                    [unat ?n := write_reg (registers node ! unat ?n) r f d],
                  number_of_registers := ?n + 1\<rparr>"
  from Cons.prems(2) have lt: "?n < GUC_REGSET_MAX_REGISTERS k"
    by (simp add: word_less_nat_alt)
  have n1: "unat (?n + 1) = Suc (unat ?n)" using lt by (rule unat_succ_below)
  have step: "add_registers k (c # cs) (node, w) = add_registers k cs (?node1, w)"
    by (simp add: c add_reg_below[OF lt])
  have wf1: "regset_wf k ?node1" using Cons.prems(1) by (simp add: regset_wf_def)
  have fit1: "unat (number_of_registers ?node1) + length cs \<le> unat (GUC_REGSET_MAX_REGISTERS k)"
    using Cons.prems(2) n1 by simp
  have run1: "add_registers k cs (?node1, w) = (node', w')"
    using Cons.prems(3) step by simp
  note ih = Cons.IH[OF wf1 fit1 run1]
  have inb: "unat ?n < length (registers node)"
    using Cons.prems(1) lt by (simp add: regset_wf_def word_less_nat_alt)
  show ?case
  proof (intro conjI allI impI)
    show "w' = w" using ih by simp
    show "regset_wf k node'" using ih by simp
    show "unat (number_of_registers node') = unat ?n + length (c # cs)"
      using ih n1 by simp
  next
    fix i assume i: "i < length (registers node)"
    from ih i have
      "registers node' ! i =
        (if Suc (unat ?n) \<le> i \<and> i < Suc (unat ?n) + length cs
         then (case cs ! (i - Suc (unat ?n)) of
                 (r', f', d') \<Rightarrow> write_reg (registers ?node1 ! i) r' f' d')
         else registers ?node1 ! i)"
      by (simp add: n1)
    then show "registers node' ! i =
        (if unat ?n \<le> i \<and> i < unat ?n + length (c # cs)
         then (case (c # cs) ! (i - unat ?n) of
                 (r, f, d) \<Rightarrow> write_reg (registers node ! i) r f d)
         else registers node ! i)"
      using i inb by (auto simp: c nth_list_update nth_Cons' Suc_diff_le)
  qed
qed

text \<open>
  Claim C9. A successful invocation of the macro (the list is below capacity) writes the
  value field of the appended entry only when the default value is not zero: with a
  default value of 0, whatever the flags, the field keeps what it held before.
\<close>

theorem add_register_value_only_if_nonzero:
  assumes "regset_wf k node"
      and "number_of_registers node < GUC_REGSET_MAX_REGISTERS k"
      and "GUC_ADD_MMIO_REG_ADS k node reg_addr fl defvalue = (node', warned)"
  shows "\<not> warned \<and>
         number_of_registers node' = number_of_registers node + 1 \<and>
         val (registers node' ! unat (number_of_registers node)) =
           (if defvalue \<noteq> 0 then defvalue
            else val (registers node ! unat (number_of_registers node)))"
proof -
  have inb: "unat (number_of_registers node) < length (registers node)"
    using assms(1,2) by (simp add: regset_wf_def word_less_nat_alt)
  from assms(3) add_reg_below[OF assms(2)] have
    "node' = node\<lparr>registers := (registers node)
              [unat (number_of_registers node) :=
                 write_reg (registers node ! unat (number_of_registers node)) reg_addr fl defvalue],
           number_of_registers := number_of_registers node + 1\<rparr>" and "\<not> warned"
    by simp_all
  then show ?thesis using inb by (simp add: write_reg_fields)
qed

theorem add_register_value_only_if_nonzero_witness:
  "regset_wf small_config stale_regset \<and>
   number_of_registers stale_regset < GUC_REGSET_MAX_REGISTERS small_config \<and>
   val (registers (fst (GUC_ADD_MMIO_REG_ADS small_config stale_regset 0x229c 3 0)) ! 0) = 0xAA \<and>
   val (registers (fst (GUC_ADD_MMIO_REG_ADS small_config stale_regset 0x229c 3 0x55)) ! 0) = 0x55"
proof -
  have wf: "regset_wf small_config stale_regset"
    by (simp add: regset_wf_def small_config_def sample_config_def stale_regset_def)
  have lt: "number_of_registers stale_regset < GUC_REGSET_MAX_REGISTERS small_config"
    by (simp add: small_config_def sample_config_def stale_regset_def)
  have n0: "unat (number_of_registers stale_regset) = 0" "val (registers stale_regset ! 0) = 0xAA"
    by (simp_all add: stale_regset_def)
  show ?thesis
    using wf lt n0
      add_register_value_only_if_nonzero[of small_config stale_regset "0x229c" 3 0,
        OF wf lt surjective_pairing]
      add_register_value_only_if_nonzero[of small_config stale_regset "0x229c" 3 "0x55",
        OF wf lt surjective_pairing]
    by simp
qed




section \<open>The descriptor blob\<close>

lemma create_InrD:
  assumes "intel_guc_ads_create k dev alloc guc = Inr (guc', warnings)"
  shows "\<exists>vma. ads_vma guc = None \<and> alloc (PAGE_ALIGN k (sizeof_blob k)) = Inr vma \<and>
           guc' = guc\<lparr>ads_vma := Some (vma\<lparr>contents :=
                     fst (ads_populate k dev (ggtt_offset vma) (contents vma))\<rparr>)\<rparr> \<and>
           warnings = snd (ads_populate k dev (ggtt_offset vma) (contents vma))"
  using assms
  by (auto simp: intel_guc_ads_create_def split: if_splits sum.splits prod.splits)

lemma create_success:
  assumes "ads_vma guc = None" and "alloc (PAGE_ALIGN k (sizeof_blob k)) = Inr vma"
  shows "intel_guc_ads_create k dev alloc guc =
           Inr (guc\<lparr>ads_vma := Some (vma\<lparr>contents :=
                     fst (ads_populate k dev (ggtt_offset vma) (contents vma))\<rparr>)\<rparr>,
                snd (ads_populate k dev (ggtt_offset vma) (contents vma)))"
  using assms by (simp add: intel_guc_ads_create_def split: prod.splits)

lemma sample_create:
  "intel_guc_ads_create sample_config sample_dev sample_alloc sample_guc =
     Inr (\<lparr>ads_vma = Some (sample_vma\<lparr>contents :=
              fst (ads_populate sample_config sample_dev 0x200000 (zero_blob sample_config))\<rparr>)\<rparr>,
          snd (ads_populate sample_config sample_dev 0x200000 (zero_blob sample_config)))"
proof -
  have a: "ads_vma sample_guc = None" by (simp add: sample_guc_def)
  have b: "sample_alloc (PAGE_ALIGN sample_config (sizeof_blob sample_config)) = Inr sample_vma"
    by (simp add: sample_alloc_def)
  show ?thesis
    using create_success[where guc=sample_guc and alloc=sample_alloc and k=sample_config
        and vma=sample_vma and dev=sample_dev, OF a b]
    by (simp add: sample_guc_def sample_vma_def)
qed

lemma foldl_eng_state_size_fields:
  "golden_context_lrca (foldl (eng_state_size_engine k) a es) = golden_context_lrca a"
  "scheduler_policies (foldl (eng_state_size_engine k) a es) = scheduler_policies a"
  "reg_state_buffer (foldl (eng_state_size_engine k) a es) = reg_state_buffer a"
  "reg_state_addr (foldl (eng_state_size_engine k) a es) = reg_state_addr a"
  by (induction es arbitrary: a; simp add: eng_state_size_engine_def)+

lemma foldl_eng_state_size_other:
  "g \<notin> guc_id ` set es \<Longrightarrow>
   eng_state_size (foldl (eng_state_size_engine k) a es) g = eng_state_size a g"
  by (induction es arbitrary: a) (auto simp: eng_state_size_engine_def)

lemma foldl_eng_state_size_at:
  "e \<in> set es \<Longrightarrow> distinct (map guc_id es) \<Longrightarrow>
   eng_state_size (foldl (eng_state_size_engine k) a es) (guc_id e) =
     context_size e - skipped_size k"
proof (induction es arbitrary: a)
  case Nil
  then show ?case by simp
next
  case (Cons x es)
  show ?case
  proof (cases "e \<in> set es")
    case True
    with Cons show ?thesis by simp
  next
    case False
    with Cons.prems have ex: "e = x" and notin: "guc_id x \<notin> guc_id ` set es" by auto
    have "eng_state_size (foldl (eng_state_size_engine k) (eng_state_size_engine k a x) es)
            (guc_id x) = eng_state_size (eng_state_size_engine k a x) (guc_id x)"
      by (rule foldl_eng_state_size_other[OF notin])
    also have "\<dots> = context_size x - skipped_size k"
      by (simp add: eng_state_size_engine_def)
    finally show ?thesis by (simp add: ex)
  qed
qed

lemma ads_populate_ads:
  "ads (fst (ads_populate k dev base b0)) =
     (foldl (eng_state_size_engine k)
        ((ads b0)\<lparr>golden_context_lrca := kernel_ctx_ggtt_offset dev + skipped_offset k\<rparr>)
        (engines dev))
     \<lparr>scheduler_policies := base + of_nat (offsetof_policies k),
      reg_state_buffer := base + of_nat (offsetof_reg_state_buffer k),
      reg_state_addr := base + of_nat (offsetof_reg_state k)\<rparr>"
  by (simp add: ads_populate_def Let_def split: prod.splits)

lemma ads_populate_golden:
  "golden_context_lrca (ads (fst (ads_populate k dev base b0))) =
     kernel_ctx_ggtt_offset dev + skipped_offset k"
  by (simp add: ads_populate_ads foldl_eng_state_size_fields)

lemma ads_populate_offsets:
  "scheduler_policies (ads (fst (ads_populate k dev base b0))) = base + of_nat (offsetof_policies k)"
  "reg_state_buffer (ads (fst (ads_populate k dev base b0))) = base + of_nat (offsetof_reg_state_buffer k)"
  "reg_state_addr (ads (fst (ads_populate k dev base b0))) = base + of_nat (offsetof_reg_state k)"
  by (simp_all add: ads_populate_ads)

lemma ads_populate_eng_state_size:
  "e \<in> set (engines dev) \<Longrightarrow> distinct (map guc_id (engines dev)) \<Longrightarrow>
   eng_state_size (ads (fst (ads_populate k dev base b0))) (guc_id e) =
     context_size e - skipped_size k"
  by (simp add: ads_populate_ads foldl_eng_state_size_at)

text \<open>
  The claim C1 as it is written fails: with a page of 4096 bytes and the kernel context at
  0x100000 the function stores 0x101000, and the address plus one page plus 80 words is
  0x101140.
\<close>

theorem golden_context_lrca_counterexample:
  "intel_guc_ads_create sample_config sample_dev sample_alloc sample_guc =
     Inr (\<lparr>ads_vma = Some (sample_vma\<lparr>contents :=
              fst (ads_populate sample_config sample_dev 0x200000 (zero_blob sample_config))\<rparr>)\<rparr>,
          snd (ads_populate sample_config sample_dev 0x200000 (zero_blob sample_config))) \<and>
   kernel_ctx_ggtt_offset sample_dev = 0x100000 \<and>
   golden_context_lrca
     (ads (fst (ads_populate sample_config sample_dev 0x200000 (zero_blob sample_config))))
     = 0x101000 \<and>
   kernel_ctx_ggtt_offset sample_dev + of_nat (PAGE_SIZE sample_config + 80 * 4) = 0x101140 \<and>
   golden_context_lrca
     (ads (fst (ads_populate sample_config sample_dev 0x200000 (zero_blob sample_config))))
     \<noteq> kernel_ctx_ggtt_offset sample_dev + of_nat (PAGE_SIZE sample_config + 80 * 4)"
proof -
  have k: "kernel_ctx_ggtt_offset sample_dev = 0x100000" by (simp add: sample_dev_def)
  have g: "golden_context_lrca
     (ads (fst (ads_populate sample_config sample_dev 0x200000 (zero_blob sample_config))))
     = 0x101000"
    by (simp add: ads_populate_golden skipped_offset_def k) (simp add: sample_config_def)
  have c: "kernel_ctx_ggtt_offset sample_dev + of_nat (PAGE_SIZE sample_config + 80 * 4)
      = 0x101140"
    by (simp add: k) (simp add: sample_config_def)
  have ne: "golden_context_lrca
     (ads (fst (ads_populate sample_config sample_dev 0x200000 (zero_blob sample_config))))
     \<noteq> kernel_ctx_ggtt_offset sample_dev + of_nat (PAGE_SIZE sample_config + 80 * 4)"
    unfolding g c by simp
  from sample_create k g c ne show ?thesis by blast
qed

text \<open>
  Claim C1, amended. The resume address stored for the golden context is the address of
  the pinned kernel context plus \<open>LRC_HEADER_PAGES\<close> whole pages (one page in this
  driver), in 32-bit arithmetic. The 80 words of \<open>LR_HW_CONTEXT_SIZE\<close> are no part of
  it; they enter only the state sizes of claim C3. The address is one field of the
  blob, the same for all engines.
\<close>

theorem golden_context_lrca_header_pages:
  assumes "intel_guc_ads_create k dev alloc guc = Inr (guc', warnings)"
  shows "\<exists>vma'. ads_vma guc' = Some vma' \<and>
           golden_context_lrca (ads (contents vma')) =
             kernel_ctx_ggtt_offset dev + of_nat (LRC_HEADER_PAGES k * PAGE_SIZE k)"
proof -
  from create_InrD[OF assms] obtain vma where
    g: "guc' = guc\<lparr>ads_vma := Some (vma\<lparr>contents :=
                     fst (ads_populate k dev (ggtt_offset vma) (contents vma))\<rparr>)\<rparr>"
    by blast
  show ?thesis
    by (simp add: g ads_populate_golden skipped_offset_def)
qed

theorem golden_context_lrca_header_pages_witness:
  "\<exists>guc' vma'.
     intel_guc_ads_create sample_config sample_dev sample_alloc sample_guc =
       Inr (guc', snd (ads_populate sample_config sample_dev 0x200000 (zero_blob sample_config))) \<and>
     ads_vma guc' = Some vma' \<and>
     golden_context_lrca (ads (contents vma')) = 0x100000 + 0x1000"
proof -
  have k: "kernel_ctx_ggtt_offset sample_dev + of_nat (LRC_HEADER_PAGES sample_config *
      PAGE_SIZE sample_config) = 0x100000 + 0x1000"
    by (simp add: sample_dev_def sample_config_def)
  from golden_context_lrca_header_pages[OF sample_create] sample_create k
  show ?thesis by auto
qed

text \<open>
  The claim C3 as it is written fails: for a context of 0x16000 bytes the function stores
  0x16000 - (4096 + 320) = 0x14EC0, and the claim's formula, which subtracts one page more,
  gives 0x13EC0.
\<close>

theorem eng_state_size_counterexample:
  "intel_guc_ads_create sample_config sample_dev sample_alloc sample_guc =
     Inr (\<lparr>ads_vma = Some (sample_vma\<lparr>contents :=
              fst (ads_populate sample_config sample_dev 0x200000 (zero_blob sample_config))\<rparr>)\<rparr>,
          snd (ads_populate sample_config sample_dev 0x200000 (zero_blob sample_config))) \<and>
   sample_rcs \<in> set (engines sample_dev) \<and>
   eng_state_size
     (ads (fst (ads_populate sample_config sample_dev 0x200000 (zero_blob sample_config))))
     (guc_id sample_rcs) = 0x14EC0 \<and>
   context_size sample_rcs -
     of_nat (LRC_PPHWSP_SZ sample_config * PAGE_SIZE sample_config +
             (PAGE_SIZE sample_config + 80 * 4)) = 0x13EC0 \<and>
   eng_state_size
     (ads (fst (ads_populate sample_config sample_dev 0x200000 (zero_blob sample_config))))
     (guc_id sample_rcs) \<noteq>
   context_size sample_rcs -
     of_nat (LRC_PPHWSP_SZ sample_config * PAGE_SIZE sample_config +
             (PAGE_SIZE sample_config + 80 * 4))"
proof -
  have m: "sample_rcs \<in> set (engines sample_dev)" by (simp add: sample_dev_def)
  have d: "distinct (map guc_id (engines sample_dev))"
    by (simp add: sample_dev_def sample_rcs_def sample_vcs_def)
  have s: "skipped_size sample_config = 0x1140"
    by (simp add: skipped_size_def LR_HW_CONTEXT_SIZE_def sample_config_def)
  have g: "eng_state_size
     (ads (fst (ads_populate sample_config sample_dev 0x200000 (zero_blob sample_config))))
     (guc_id sample_rcs) = 0x14EC0"
    by (simp add: ads_populate_eng_state_size[OF m d] s) (simp add: sample_rcs_def)
  have c: "context_size sample_rcs -
     of_nat (LRC_PPHWSP_SZ sample_config * PAGE_SIZE sample_config +
             (PAGE_SIZE sample_config + 80 * 4)) = 0x13EC0"
    by (simp add: sample_config_def sample_rcs_def)
  have ne: "eng_state_size
     (ads (fst (ads_populate sample_config sample_dev 0x200000 (zero_blob sample_config))))
     (guc_id sample_rcs) \<noteq>
   context_size sample_rcs -
     of_nat (LRC_PPHWSP_SZ sample_config * PAGE_SIZE sample_config +
             (PAGE_SIZE sample_config + 80 * 4))"
    unfolding g c by simp
  from sample_create m g c ne show ?thesis by blast
qed

text \<open>
  Claim C3, amended. For every engine (the \<^verbatim>\<open>guc_id\<close>s being distinct) the state size
  stored in the blob is the context size minus \<open>LRC_PPHWSP_SZ\<close> pages and 80 32-bit
  words, in 32-bit arithmetic: the amount subtracted is the PPHWSP and the 80 words,
  not a further page.
\<close>

theorem eng_state_size_skips_pphwsp_and_80_dwords:
  assumes "intel_guc_ads_create k dev alloc guc = Inr (guc', warnings)"
      and "e \<in> set (engines dev)"
      and "distinct (map guc_id (engines dev))"
  shows "\<exists>vma'. ads_vma guc' = Some vma' \<and>
           eng_state_size (ads (contents vma')) (guc_id e) =
             context_size e - of_nat (LRC_PPHWSP_SZ k * PAGE_SIZE k + 80 * 4)"
proof -
  from create_InrD[OF assms(1)] obtain vma where
    g: "guc' = guc\<lparr>ads_vma := Some (vma\<lparr>contents :=
                     fst (ads_populate k dev (ggtt_offset vma) (contents vma))\<rparr>)\<rparr>"
    by blast
  show ?thesis
    by (simp add: g ads_populate_eng_state_size[OF assms(2,3)] skipped_size_def
        LR_HW_CONTEXT_SIZE_def)
qed

theorem eng_state_size_skips_pphwsp_and_80_dwords_witness:
  "sample_vcs \<in> set (engines sample_dev) \<and> distinct (map guc_id (engines sample_dev)) \<and>
   (\<exists>guc' vma'.
     intel_guc_ads_create sample_config sample_dev sample_alloc sample_guc =
       Inr (guc', snd (ads_populate sample_config sample_dev 0x200000 (zero_blob sample_config))) \<and>
     ads_vma guc' = Some vma' \<and>
     eng_state_size (ads (contents vma')) 1 = 0x14000 - 0x1140)"
proof -
  have m: "sample_vcs \<in> set (engines sample_dev)" by (simp add: sample_dev_def)
  have d: "distinct (map guc_id (engines sample_dev))"
    by (simp add: sample_dev_def sample_rcs_def sample_vcs_def)
  have k: "context_size sample_vcs -
      of_nat (LRC_PPHWSP_SZ sample_config * PAGE_SIZE sample_config + 80 * 4)
      = (0x14000 - 0x1140 :: u32)" "guc_id sample_vcs = 1"
    by (simp_all add: sample_vcs_def sample_config_def)
  from eng_state_size_skips_pphwsp_and_80_dwords[OF sample_create m d] sample_create k m d
  show ?thesis by auto
qed

lemma unat_add_of_nat:
  assumes "unat (b :: u32) + n < 2 ^ 32"
  shows "unat (b + of_nat n) = unat b + n"
proof -
  from assms have n: "n < 2 ^ 32" by simp
  have "unat (b + of_nat n) = (unat b + unat (of_nat n :: u32)) mod 2 ^ 32"
    by (simp add: unat_word_ariths)
  also have "unat (of_nat n :: u32) = n" using n by (simp add: unat_of_nat)
  finally show ?thesis using assms by simp
qed

lemma PAGE_ALIGN_ge:
  assumes "0 < PAGE_SIZE k"
  shows "n \<le> PAGE_ALIGN k n"
proof -
  let ?p = "PAGE_SIZE k"
  let ?m = "n + ?p - 1"
  have "?m div ?p * ?p = ?m - ?m mod ?p" by (simp add: minus_mod_eq_div_mult)
  moreover have "?m mod ?p \<le> ?p - 1" using assms
    by (metis Suc_pred less_Suc_eq_le mod_less_divisor One_nat_def)
  ultimately show ?thesis using assms by (simp add: PAGE_ALIGN_def)
qed

text \<open>
  Claim C6. The blob is laid out as policy table, then white list and save lists
  (\<open>reg_state_addr\<close>), then register-state buffer, and the function stores the three
  offsets \<open>scheduler_policies\<close>, \<open>reg_state_buffer\<close> and \<open>reg_state_addr\<close>. When the
  backing region, of the \<open>PAGE_ALIGN (sizeof blob)\<close> bytes the function asks the
  allocator for, lies in the 32-bit address space and no member of the blob is empty,
  the offsets increase strictly in the order of the layout, each member ends where the
  next begins or before, and every member lies inside the backing region.
\<close>

theorem blob_offsets_layout:
  assumes run: "intel_guc_ads_create k dev alloc guc = Inr (guc', warnings)"
      and vma: "ads_vma guc' = Some vma'"
      and page: "0 < PAGE_SIZE k"
      and pol: "0 < sizeof_guc_policies k"
      and rs: "0 < sizeof_guc_mmio_reg_state k"
      and buf: "0 < GUC_S3_SAVE_SPACE_PAGES k"
      and fits: "unat (ggtt_offset vma') + PAGE_ALIGN k (sizeof_blob k) \<le> 2 ^ 32"
  shows "scheduler_policies (ads (contents vma')) < reg_state_addr (ads (contents vma')) \<and>
         reg_state_addr (ads (contents vma')) < reg_state_buffer (ads (contents vma')) \<and>
         unat (ggtt_offset vma') \<le> unat (scheduler_policies (ads (contents vma'))) \<and>
         unat (scheduler_policies (ads (contents vma'))) + sizeof_guc_policies k
           \<le> unat (reg_state_addr (ads (contents vma'))) \<and>
         unat (reg_state_addr (ads (contents vma'))) + sizeof_guc_mmio_reg_state k
           \<le> unat (reg_state_buffer (ads (contents vma'))) \<and>
         unat (reg_state_buffer (ads (contents vma'))) + sizeof_reg_state_buffer k
           \<le> unat (ggtt_offset vma') + PAGE_ALIGN k (sizeof_blob k) \<and>
         (\<exists>b0. alloc (PAGE_ALIGN k (sizeof_blob k)) = Inr (vma'\<lparr>contents := b0\<rparr>))"
proof -
  from create_InrD[OF run] obtain vma where
    al: "alloc (PAGE_ALIGN k (sizeof_blob k)) = Inr vma" and
    g: "guc' = guc\<lparr>ads_vma := Some (vma\<lparr>contents :=
                     fst (ads_populate k dev (ggtt_offset vma) (contents vma))\<rparr>)\<rparr>"
    by blast
  let ?base = "ggtt_offset vma"
  let ?a = "ads (fst (ads_populate k dev ?base (contents vma)))"
  from g vma have v: "vma' = vma\<lparr>contents := fst (ads_populate k dev ?base (contents vma))\<rparr>"
    by simp
  then have bb: "ggtt_offset vma' = ?base" and aa: "ads (contents vma') = ?a" by simp_all
  have sz: "sizeof_blob k \<le> PAGE_ALIGN k (sizeof_blob k)" by (rule PAGE_ALIGN_ge[OF page])
  have tot: "unat ?base + sizeof_blob k \<le> 2 ^ 32" using fits sz bb by simp
  have buf0: "0 \<le> sizeof_reg_state_buffer k" by simp
  have lt1: "unat ?base + offsetof_policies k < 2 ^ 32"
    using tot pol by (simp add: sizeof_blob_def offsetof_policies_def offsetof_reg_state_buffer_def)
  have lt2: "unat ?base + offsetof_reg_state k < 2 ^ 32"
    using tot rs by (simp add: sizeof_blob_def offsetof_reg_state_def offsetof_reg_state_buffer_def)
  have le3: "unat ?base + offsetof_reg_state_buffer k + sizeof_reg_state_buffer k \<le> 2 ^ 32"
    using tot by (simp add: sizeof_blob_def)
  have u1: "unat (scheduler_policies ?a) = unat ?base + offsetof_policies k"
    by (simp add: ads_populate_offsets unat_add_of_nat[OF lt1])
  have u2: "unat (reg_state_addr ?a) = unat ?base + offsetof_reg_state k"
    by (simp add: ads_populate_offsets unat_add_of_nat[OF lt2])
  have nz: "0 < sizeof_reg_state_buffer k" using buf page by (simp add: sizeof_reg_state_buffer_def)
  then have lt3: "unat ?base + offsetof_reg_state_buffer k < 2 ^ 32" using le3 by simp
  have u3: "unat (reg_state_buffer ?a) = unat ?base + offsetof_reg_state_buffer k"
    by (simp add: ads_populate_offsets unat_add_of_nat[OF lt3])
  have "vma'\<lparr>contents := contents vma\<rparr> = vma" by (simp add: v)
  with al have "alloc (PAGE_ALIGN k (sizeof_blob k)) = Inr (vma'\<lparr>contents := contents vma\<rparr>)"
    by simp
  then have from_alloc:
    "\<exists>b0. alloc (PAGE_ALIGN k (sizeof_blob k)) = Inr (vma'\<lparr>contents := b0\<rparr>)"
    by (rule exI)
  have layout:
    "scheduler_policies (ads (contents vma')) < reg_state_addr (ads (contents vma')) \<and>
     reg_state_addr (ads (contents vma')) < reg_state_buffer (ads (contents vma')) \<and>
     unat (ggtt_offset vma') \<le> unat (scheduler_policies (ads (contents vma'))) \<and>
     unat (scheduler_policies (ads (contents vma'))) + sizeof_guc_policies k
       \<le> unat (reg_state_addr (ads (contents vma'))) \<and>
     unat (reg_state_addr (ads (contents vma'))) + sizeof_guc_mmio_reg_state k
       \<le> unat (reg_state_buffer (ads (contents vma'))) \<and>
     unat (reg_state_buffer (ads (contents vma'))) + sizeof_reg_state_buffer k
       \<le> unat (ggtt_offset vma') + PAGE_ALIGN k (sizeof_blob k)"
    using u1 u2 u3 pol rs sz
    by (simp add: aa bb word_less_nat_alt offsetof_policies_def offsetof_reg_state_def
        offsetof_reg_state_buffer_def sizeof_blob_def)
  from layout from_alloc show ?thesis by blast
qed

theorem blob_offsets_layout_witness:
  "0 < PAGE_SIZE sample_config \<and> 0 < sizeof_guc_policies sample_config \<and>
   0 < sizeof_guc_mmio_reg_state sample_config \<and> 0 < GUC_S3_SAVE_SPACE_PAGES sample_config \<and>
   unat (0x200000 :: u32) + PAGE_ALIGN sample_config (sizeof_blob sample_config) \<le> 2 ^ 32 \<and>
   (\<exists>guc' vma'.
     intel_guc_ads_create sample_config sample_dev sample_alloc sample_guc =
       Inr (guc', snd (ads_populate sample_config sample_dev 0x200000 (zero_blob sample_config))) \<and>
     ads_vma guc' = Some vma' \<and> ggtt_offset vma' = 0x200000 \<and>
     scheduler_policies (ads (contents vma')) < reg_state_addr (ads (contents vma')) \<and>
     reg_state_addr (ads (contents vma')) < reg_state_buffer (ads (contents vma')) \<and>
     unat (reg_state_buffer (ads (contents vma'))) + sizeof_reg_state_buffer sample_config
       \<le> unat (0x200000 :: u32) + PAGE_ALIGN sample_config (sizeof_blob sample_config))"
proof -
  let ?vma = "sample_vma\<lparr>contents :=
              fst (ads_populate sample_config sample_dev 0x200000 (zero_blob sample_config))\<rparr>"
  have v: "ads_vma \<lparr>ads_vma = Some ?vma\<rparr> = Some ?vma" by simp
  have o: "ggtt_offset ?vma = 0x200000" by (simp add: sample_vma_def)
  have h: "0 < PAGE_SIZE sample_config" "0 < sizeof_guc_policies sample_config"
    "0 < sizeof_guc_mmio_reg_state sample_config" "0 < GUC_S3_SAVE_SPACE_PAGES sample_config"
    by (simp_all add: sample_config_def)
  have f: "unat (ggtt_offset ?vma) + PAGE_ALIGN sample_config (sizeof_blob sample_config) \<le> 2 ^ 32"
    by (simp add: sample_vma_def PAGE_ALIGN_def sizeof_blob_def offsetof_reg_state_buffer_def
        sizeof_reg_state_buffer_def sample_config_def)
  from blob_offsets_layout[OF sample_create v h f] sample_create h f o
  show ?thesis by auto
qed

section \<open>The save list of an engine\<close>

lemma mmio_reg_state_engine_regs:
  assumes "mmio_reg_state_engine k dev (rs, w) engine = (rs', w')"
  shows "add_registers k (engine_save_list k dev engine) (engine_reg rs (guc_id engine), w) =
           (engine_reg rs' (guc_id engine), w')"
  using assms by (auto simp: mmio_reg_state_engine_def Let_def split: prod.splits)

lemma engine_save_list_length:
  "length (engine_save_list k dev engine) =
     3 + (if engine_id engine = RCS k then length (guc_reg dev) else 0)"
  by (simp add: engine_save_list_def)

lemma ring_mode_value_nonzero:
  "(x :: u32) OR a OR b OR push_bit 16 0xFFFF \<noteq> 0"
  by (simp add: or_eq_0_iff)

lemma engine_save_list_nth:
  "engine_save_list k dev engine ! 0 =
     (RING_HWS_PGA k (mmio_base engine),
      GUC_REGSET_ENGINERESET k OR GUC_REGSET_SAVE_CURRENT_VALUE k, 0)"
  "engine_save_list k dev engine ! Suc 0 =
     (RING_MODE_GEN7 k (mmio_base engine),
      GUC_REGSET_ENGINERESET k OR GUC_REGSET_SAVE_DEFAULT_VALUE k,
      I915_READ dev (RING_MODE_GEN7 k (mmio_base engine)) OR GFX_RUN_LIST_ENABLE k OR
        GFX_INTERRUPT_STEERING k OR push_bit 16 0xFFFF)"
  "engine_save_list k dev engine ! 2 =
     (RING_IMR k (mmio_base engine),
      GUC_REGSET_ENGINERESET k OR GUC_REGSET_SAVE_CURRENT_VALUE k, 0)"
  "engine_id engine = RCS k \<Longrightarrow> j < length (guc_reg dev) \<Longrightarrow>
   engine_save_list k dev engine ! (3 + j) =
     (addr (guc_reg dev ! j),
      GUC_REGSET_ENGINERESET k OR GUC_REGSET_SAVE_DEFAULT_VALUE k,
      wa_value (guc_reg dev ! j))"
  by (simp_all add: engine_save_list_def numeral_3_eq_3 numeral_2_eq_2)

text \<open>
  One turn of the engine loop, on any well-formed list with \<open>n\<close> entries and room for
  the new ones: the entries appended from index \<open>n\<close> on, in order. A value field is
  written as the macro writes it.
\<close>

lemma mmio_reg_state_engine_appends:
  assumes wf: "regset_wf k (engine_reg rs (guc_id engine))"
      and room: "unat (number_of_registers (engine_reg rs (guc_id engine))) + 3 +
                   (if engine_id engine = RCS k then length (guc_reg dev) else 0)
                 \<le> unat (GUC_REGSET_MAX_REGISTERS k)"
      and run: "mmio_reg_state_engine k dev (rs, w) engine = (rs', w')"
      and n: "n = unat (number_of_registers (engine_reg rs (guc_id engine)))"
      and old: "old = registers (engine_reg rs (guc_id engine))"
      and new: "new = registers (engine_reg rs' (guc_id engine))"
  shows "w' = w \<and>
         unat (number_of_registers (engine_reg rs' (guc_id engine))) =
           n + 3 + (if engine_id engine = RCS k then length (guc_reg dev) else 0) \<and>
         (\<forall>i < n. new ! i = old ! i) \<and>
         offset (new ! n) = RING_HWS_PGA k (mmio_base engine) \<and>
         flags (new ! n) = GUC_REGSET_ENGINERESET k OR GUC_REGSET_SAVE_CURRENT_VALUE k \<and>
         val (new ! n) = val (old ! n) \<and>
         offset (new ! (n + 1)) = RING_MODE_GEN7 k (mmio_base engine) \<and>
         flags (new ! (n + 1)) = GUC_REGSET_ENGINERESET k OR GUC_REGSET_SAVE_DEFAULT_VALUE k \<and>
         val (new ! (n + 1)) =
           I915_READ dev (RING_MODE_GEN7 k (mmio_base engine)) OR GFX_RUN_LIST_ENABLE k OR
             GFX_INTERRUPT_STEERING k OR 0xFFFF0000 \<and>
         offset (new ! (n + 2)) = RING_IMR k (mmio_base engine) \<and>
         flags (new ! (n + 2)) = GUC_REGSET_ENGINERESET k OR GUC_REGSET_SAVE_CURRENT_VALUE k \<and>
         val (new ! (n + 2)) = val (old ! (n + 2)) \<and>
         (engine_id engine = RCS k \<longrightarrow>
            (\<forall>j < length (guc_reg dev).
               offset (new ! (n + 3 + j)) = addr (guc_reg dev ! j) \<and>
               flags (new ! (n + 3 + j)) =
                 GUC_REGSET_ENGINERESET k OR GUC_REGSET_SAVE_DEFAULT_VALUE k \<and>
               val (new ! (n + 3 + j)) =
                 (if wa_value (guc_reg dev ! j) \<noteq> 0 then wa_value (guc_reg dev ! j)
                  else val (old ! (n + 3 + j)))))"
proof -
  let ?cs = "engine_save_list k dev engine"
  let ?node = "engine_reg rs (guc_id engine)"
  let ?node' = "engine_reg rs' (guc_id engine)"
  let ?m = "if engine_id engine = RCS k then length (guc_reg dev) else 0"
  have len: "length ?cs = 3 + ?m" by (rule engine_save_list_length)
  have fit: "unat (number_of_registers ?node) + length ?cs \<le> unat (GUC_REGSET_MAX_REGISTERS k)"
    using room len by simp
  note f = add_registers_fit[OF wf fit mmio_reg_state_engine_regs[OF run]]
  have L: "length old = unat (GUC_REGSET_MAX_REGISTERS k)"
    using wf old by (simp add: regset_wf_def)
  have at: "\<And>i. i < length old \<Longrightarrow> new ! i =
        (if n \<le> i \<and> i < n + (3 + ?m)
         then (case ?cs ! (i - n) of (r, f, d) \<Rightarrow> write_reg (old ! i) r f d)
         else old ! i)"
    using f n old new len by simp
  have b0: "n < length old" and b1: "n + 1 < length old" and b2: "n + 2 < length old"
    using room n L by simp_all
  have e0: "new ! n = write_reg (old ! n) (RING_HWS_PGA k (mmio_base engine))
              (GUC_REGSET_ENGINERESET k OR GUC_REGSET_SAVE_CURRENT_VALUE k) 0"
    using at[OF b0] by (simp add: engine_save_list_nth)
  have e1: "new ! (n + 1) = write_reg (old ! (n + 1)) (RING_MODE_GEN7 k (mmio_base engine))
              (GUC_REGSET_ENGINERESET k OR GUC_REGSET_SAVE_DEFAULT_VALUE k)
              (I915_READ dev (RING_MODE_GEN7 k (mmio_base engine)) OR GFX_RUN_LIST_ENABLE k OR
                 GFX_INTERRUPT_STEERING k OR push_bit 16 0xFFFF)"
    using at[OF b1] by (simp add: engine_save_list_nth)
  have e2: "new ! (n + 2) = write_reg (old ! (n + 2)) (RING_IMR k (mmio_base engine))
              (GUC_REGSET_ENGINERESET k OR GUC_REGSET_SAVE_CURRENT_VALUE k) 0"
    using at[OF b2] by (simp add: engine_save_list_nth)
  have before: "\<forall>i < n. new ! i = old ! i"
    using at b0 by simp
  have wa: "engine_id engine = RCS k \<longrightarrow>
            (\<forall>j < length (guc_reg dev).
               offset (new ! (n + 3 + j)) = addr (guc_reg dev ! j) \<and>
               flags (new ! (n + 3 + j)) =
                 GUC_REGSET_ENGINERESET k OR GUC_REGSET_SAVE_DEFAULT_VALUE k \<and>
               val (new ! (n + 3 + j)) =
                 (if wa_value (guc_reg dev ! j) \<noteq> 0 then wa_value (guc_reg dev ! j)
                  else val (old ! (n + 3 + j))))"
  proof (intro impI allI)
    fix j assume r: "engine_id engine = RCS k" and j: "j < length (guc_reg dev)"
    have bj: "n + 3 + j < length old" using room n L r j by simp
    have "new ! (n + 3 + j) = write_reg (old ! (n + 3 + j)) (addr (guc_reg dev ! j))
              (GUC_REGSET_ENGINERESET k OR GUC_REGSET_SAVE_DEFAULT_VALUE k)
              (wa_value (guc_reg dev ! j))"
      using at[OF bj] r j engine_save_list_nth(4)[OF r j]
      by (simp add: add.assoc)
    then show "offset (new ! (n + 3 + j)) = addr (guc_reg dev ! j) \<and>
               flags (new ! (n + 3 + j)) =
                 GUC_REGSET_ENGINERESET k OR GUC_REGSET_SAVE_DEFAULT_VALUE k \<and>
               val (new ! (n + 3 + j)) =
                 (if wa_value (guc_reg dev ! j) \<noteq> 0 then wa_value (guc_reg dev ! j)
                  else val (old ! (n + 3 + j)))"
      by (simp add: write_reg_fields)
  qed
  have m16: "push_bit 16 (0xFFFF :: u32) = 0xFFFF0000" by simp
  have f0: "offset (new ! n) = RING_HWS_PGA k (mmio_base engine)"
    "flags (new ! n) = GUC_REGSET_ENGINERESET k OR GUC_REGSET_SAVE_CURRENT_VALUE k"
    "val (new ! n) = val (old ! n)"
    unfolding e0 by (simp_all add: write_reg_fields)
  have f1: "offset (new ! (n + 1)) = RING_MODE_GEN7 k (mmio_base engine)"
    "flags (new ! (n + 1)) = GUC_REGSET_ENGINERESET k OR GUC_REGSET_SAVE_DEFAULT_VALUE k"
    unfolding e1 by (simp_all add: write_reg_fields)
  have v1: "val (new ! (n + 1)) =
           I915_READ dev (RING_MODE_GEN7 k (mmio_base engine)) OR GFX_RUN_LIST_ENABLE k OR
             GFX_INTERRUPT_STEERING k OR 0xFFFF0000"
    unfolding e1
    using ring_mode_value_nonzero[of "I915_READ dev (RING_MODE_GEN7 k (mmio_base engine))"
        "GFX_RUN_LIST_ENABLE k" "GFX_INTERRUPT_STEERING k"]
    by (simp add: write_reg_fields m16)
  have f2: "offset (new ! (n + 2)) = RING_IMR k (mmio_base engine)"
    "flags (new ! (n + 2)) = GUC_REGSET_ENGINERESET k OR GUC_REGSET_SAVE_CURRENT_VALUE k"
    "val (new ! (n + 2)) = val (old ! (n + 2))"
    unfolding e2 by (simp_all add: write_reg_fields)
  have cnt: "unat (number_of_registers ?node') = n + 3 + ?m" and ww: "w' = w"
    using f n len by simp_all
  from ww cnt before f0 f1 v1 f2 wa show ?thesis by blast
qed

lemma mmio_reg_state_engine_other:
  "guc_id x \<noteq> g \<Longrightarrow>
   engine_reg (fst (mmio_reg_state_engine k dev s x)) g = engine_reg (fst s) g"
  by (simp add: mmio_reg_state_engine_def Let_def split: prod.splits)

lemma foldl_mmio_other:
  "g \<notin> guc_id ` set es \<Longrightarrow>
   engine_reg (fst (foldl (mmio_reg_state_engine k dev) s es)) g = engine_reg (fst s) g"
proof (induction es arbitrary: s)
  case Nil
  show ?case by simp
next
  case (Cons x es)
  then have "guc_id x \<noteq> g" and "g \<notin> guc_id ` set es" by auto
  then show ?case
    using Cons.IH[of "mmio_reg_state_engine k dev s x"]
    by (simp add: mmio_reg_state_engine_other)
qed

lemma foldl_mmio_turn:
  assumes "e \<in> set es" and "distinct (map guc_id es)"
  shows "\<exists>rs w rs' w'.
           mmio_reg_state_engine k dev (rs, w) e = (rs', w') \<and>
           engine_reg rs (guc_id e) = engine_reg (fst s) (guc_id e) \<and>
           engine_reg (fst (foldl (mmio_reg_state_engine k dev) s es)) (guc_id e) =
             engine_reg rs' (guc_id e)"
  using assms
proof (induction es arbitrary: s)
  case Nil
  then show ?case by simp
next
  case (Cons x es)
  from Cons.prems(2) have d: "distinct (map guc_id es)" and notin: "guc_id x \<notin> guc_id ` set es"
    by simp_all
  show ?case
  proof (cases "e \<in> set es")
    case True
    with notin have ne: "guc_id x \<noteq> guc_id e" by auto
    from Cons.IH[OF True d, of "mmio_reg_state_engine k dev s x"] obtain rs w rs' w' where
      t: "mmio_reg_state_engine k dev (rs, w) e = (rs', w')"
         "engine_reg rs (guc_id e) =
            engine_reg (fst (mmio_reg_state_engine k dev s x)) (guc_id e)"
         "engine_reg (fst (foldl (mmio_reg_state_engine k dev)
                             (mmio_reg_state_engine k dev s x) es)) (guc_id e) =
            engine_reg rs' (guc_id e)"
      by blast
    have "engine_reg rs (guc_id e) = engine_reg (fst s) (guc_id e)"
      using t(2) by (simp add: mmio_reg_state_engine_other[OF ne])
    with t(1,3) show ?thesis by auto
  next
    case False
    with Cons.prems(1) have ex: "e = x" by simp
    obtain rs w where s: "s = (rs, w)" by (cases s)
    obtain rs' w' where t: "mmio_reg_state_engine k dev (rs, w) x = (rs', w')"
      by (cases "mmio_reg_state_engine k dev (rs, w) x")
    have "engine_reg (fst (foldl (mmio_reg_state_engine k dev) (rs', w') es)) (guc_id x) =
            engine_reg rs' (guc_id x)"
      using foldl_mmio_other[OF notin, of k dev "(rs', w')"] by simp
    with t s ex show ?thesis by auto
  qed
qed

lemma ads_populate_reg_state:
  "reg_state (fst (ads_populate k dev base b0)) =
     fst (foldl (mmio_reg_state_engine k dev) (reg_state b0, 0) (engines dev))"
  by (simp add: ads_populate_def Let_def split: prod.splits)

text \<open>
  Claim C7. In the blob that \<^verbatim>\<open>intel_guc_ads_create\<close> builds, for every engine of the
  device (the \<^verbatim>\<open>guc_id\<close>s being distinct), when the save list of the engine starts in
  zeroed memory and has room for the entries: the list holds, in this order, at index 0
  the hardware-status-page register with save-current-value; at index 1 the ring mode
  register with save-default-value and the value read from the register at build time
  OR \<open>GFX_RUN_LIST_ENABLE\<close> OR \<open>GFX_INTERRUPT_STEERING\<close> OR \<open>0xFFFF << 16\<close>; at
  index 2 the interrupt-mask register with save-current-value; and, only when the
  engine is \<open>RCS\<close>, from index 3 on each workaround register of the caller with
  save-default-value and its value. The count is 3, plus the number of workarounds for
  \<open>RCS\<close>. Every flag word also carries \<open>GUC_REGSET_ENGINERESET\<close>.
\<close>

theorem engine_save_list_order:
  assumes run: "intel_guc_ads_create k dev alloc guc = Inr (guc', warnings)"
      and vma: "ads_vma guc' = Some vma'"
      and alloc: "alloc (PAGE_ALIGN k (sizeof_blob k)) = Inr vma0"
      and fresh: "regset_fresh k (engine_reg (reg_state (contents vma0)) (guc_id engine))"
      and mem: "engine \<in> set (engines dev)"
      and dist: "distinct (map guc_id (engines dev))"
      and room: "3 + (if engine_id engine = RCS k then length (guc_reg dev) else 0)
                 \<le> unat (GUC_REGSET_MAX_REGISTERS k)"
      and new: "new = registers (engine_reg (reg_state (contents vma')) (guc_id engine))"
  shows "unat (number_of_registers (engine_reg (reg_state (contents vma')) (guc_id engine))) =
           3 + (if engine_id engine = RCS k then length (guc_reg dev) else 0) \<and>
         offset (new ! 0) = RING_HWS_PGA k (mmio_base engine) \<and>
         flags (new ! 0) = GUC_REGSET_ENGINERESET k OR GUC_REGSET_SAVE_CURRENT_VALUE k \<and>
         val (new ! 0) = 0 \<and>
         offset (new ! 1) = RING_MODE_GEN7 k (mmio_base engine) \<and>
         flags (new ! 1) = GUC_REGSET_ENGINERESET k OR GUC_REGSET_SAVE_DEFAULT_VALUE k \<and>
         val (new ! 1) =
           I915_READ dev (RING_MODE_GEN7 k (mmio_base engine)) OR GFX_RUN_LIST_ENABLE k OR
             GFX_INTERRUPT_STEERING k OR 0xFFFF0000 \<and>
         offset (new ! 2) = RING_IMR k (mmio_base engine) \<and>
         flags (new ! 2) = GUC_REGSET_ENGINERESET k OR GUC_REGSET_SAVE_CURRENT_VALUE k \<and>
         val (new ! 2) = 0 \<and>
         (engine_id engine = RCS k \<longrightarrow>
            (\<forall>j < length (guc_reg dev).
               offset (new ! (3 + j)) = addr (guc_reg dev ! j) \<and>
               flags (new ! (3 + j)) =
                 GUC_REGSET_ENGINERESET k OR GUC_REGSET_SAVE_DEFAULT_VALUE k \<and>
               val (new ! (3 + j)) = wa_value (guc_reg dev ! j)))"
proof -
  let ?g = "guc_id engine"
  let ?m = "if engine_id engine = RCS k then length (guc_reg dev) else 0"
  from create_InrD[OF run] alloc vma have
    v: "vma' = vma0\<lparr>contents := fst (ads_populate k dev (ggtt_offset vma0) (contents vma0))\<rparr>"
    by auto
  then have rsf: "reg_state (contents vma') =
      fst (foldl (mmio_reg_state_engine k dev) (reg_state (contents vma0), 0) (engines dev))"
    by (simp add: ads_populate_reg_state)
  from foldl_mmio_turn[OF mem dist, of k dev "(reg_state (contents vma0), 0)"]
  obtain rs w rs' w' where
    t: "mmio_reg_state_engine k dev (rs, w) engine = (rs', w')"
       "engine_reg rs ?g = engine_reg (reg_state (contents vma0)) ?g"
       "engine_reg (reg_state (contents vma')) ?g = engine_reg rs' ?g"
    unfolding rsf by auto
  from fresh t(2) have wf: "regset_wf k (engine_reg rs ?g)"
    and n0: "number_of_registers (engine_reg rs ?g) = 0"
    and zero: "\<forall>i < length (registers (engine_reg rs ?g)).
                 val (registers (engine_reg rs ?g) ! i) = 0"
    by (simp_all add: regset_fresh_def)
  have L: "length (registers (engine_reg rs ?g)) = unat (GUC_REGSET_MAX_REGISTERS k)"
    using wf by (simp add: regset_wf_def)
  have room': "unat (number_of_registers (engine_reg rs ?g)) + 3 + ?m
                 \<le> unat (GUC_REGSET_MAX_REGISTERS k)"
    using room n0 by simp
  have nn: "0 = unat (number_of_registers (engine_reg rs ?g))" using n0 by simp
  have new': "new = registers (engine_reg rs' ?g)" using new t(3) by simp
  note a = mmio_reg_state_engine_appends[OF wf room' t(1) nn refl new']
  have z0: "val (registers (engine_reg rs ?g) ! 0) = 0"
    and z2: "val (registers (engine_reg rs ?g) ! 2) = 0"
    using zero L room by simp_all
  have cnt: "unat (number_of_registers (engine_reg (reg_state (contents vma')) ?g)) = 3 + ?m"
    using a t(3) by simp
  have e0: "offset (new ! 0) = RING_HWS_PGA k (mmio_base engine)"
    "flags (new ! 0) = GUC_REGSET_ENGINERESET k OR GUC_REGSET_SAVE_CURRENT_VALUE k"
    "val (new ! 0) = 0"
    using a z0 by simp_all
  have e1: "offset (new ! 1) = RING_MODE_GEN7 k (mmio_base engine)"
    "flags (new ! 1) = GUC_REGSET_ENGINERESET k OR GUC_REGSET_SAVE_DEFAULT_VALUE k"
    "val (new ! 1) =
           I915_READ dev (RING_MODE_GEN7 k (mmio_base engine)) OR GFX_RUN_LIST_ENABLE k OR
             GFX_INTERRUPT_STEERING k OR 0xFFFF0000"
    using a by simp_all
  from a have "offset (new ! (0 + 2)) = RING_IMR k (mmio_base engine) \<and>
    flags (new ! (0 + 2)) = GUC_REGSET_ENGINERESET k OR GUC_REGSET_SAVE_CURRENT_VALUE k \<and>
    val (new ! (0 + 2)) = val (registers (engine_reg rs ?g) ! (0 + 2))"
    by blast
  then have e2: "offset (new ! 2) = RING_IMR k (mmio_base engine)"
    "flags (new ! 2) = GUC_REGSET_ENGINERESET k OR GUC_REGSET_SAVE_CURRENT_VALUE k"
    "val (new ! 2) = 0"
    using z2 by (simp_all add: numeral_2_eq_2)
  have wa: "engine_id engine = RCS k \<longrightarrow>
            (\<forall>j < length (guc_reg dev).
               offset (new ! (3 + j)) = addr (guc_reg dev ! j) \<and>
               flags (new ! (3 + j)) =
                 GUC_REGSET_ENGINERESET k OR GUC_REGSET_SAVE_DEFAULT_VALUE k \<and>
               val (new ! (3 + j)) = wa_value (guc_reg dev ! j))"
  proof (intro impI allI)
    fix j assume r: "engine_id engine = RCS k" and j: "j < length (guc_reg dev)"
    have zj: "val (registers (engine_reg rs ?g) ! (0 + 3 + j)) = 0"
      using zero L room r j by simp
    from a r j have "offset (new ! (0 + 3 + j)) = addr (guc_reg dev ! j) \<and>
               flags (new ! (0 + 3 + j)) =
                 GUC_REGSET_ENGINERESET k OR GUC_REGSET_SAVE_DEFAULT_VALUE k \<and>
               val (new ! (0 + 3 + j)) =
                 (if wa_value (guc_reg dev ! j) \<noteq> 0 then wa_value (guc_reg dev ! j)
                  else val (registers (engine_reg rs ?g) ! (0 + 3 + j)))"
      by blast
    with zj show "offset (new ! (3 + j)) = addr (guc_reg dev ! j) \<and>
               flags (new ! (3 + j)) =
                 GUC_REGSET_ENGINERESET k OR GUC_REGSET_SAVE_DEFAULT_VALUE k \<and>
               val (new ! (3 + j)) = wa_value (guc_reg dev ! j)"
      by auto
  qed
  from cnt e0 e1 e2 wa show ?thesis by blast
qed

theorem engine_save_list_order_witness:
  "sample_alloc (PAGE_ALIGN sample_config (sizeof_blob sample_config)) = Inr sample_vma \<and>
   regset_fresh sample_config
     (engine_reg (reg_state (contents sample_vma)) (guc_id sample_rcs)) \<and>
   sample_rcs \<in> set (engines sample_dev) \<and> distinct (map guc_id (engines sample_dev)) \<and>
   3 + (if engine_id sample_rcs = RCS sample_config then length (guc_reg sample_dev) else 0)
     \<le> unat (GUC_REGSET_MAX_REGISTERS sample_config) \<and>
   engine_id sample_rcs = RCS sample_config \<and> (0::nat) < length (guc_reg sample_dev) \<and>
   (\<exists>guc' vma'.
      intel_guc_ads_create sample_config sample_dev sample_alloc sample_guc =
        Inr (guc', snd (ads_populate sample_config sample_dev 0x200000 (zero_blob sample_config))) \<and>
      ads_vma guc' = Some vma' \<and>
      unat (number_of_registers (engine_reg (reg_state (contents vma')) (guc_id sample_rcs))) = 4 \<and>
      offset (registers (engine_reg (reg_state (contents vma')) (guc_id sample_rcs)) ! 0) = 0x2080 \<and>
      val (registers (engine_reg (reg_state (contents vma')) (guc_id sample_rcs)) ! 1) = 0xFFFFC200 \<and>
      offset (registers (engine_reg (reg_state (contents vma')) (guc_id sample_rcs)) ! 2) = 0x20a8 \<and>
      offset (registers (engine_reg (reg_state (contents vma')) (guc_id sample_rcs)) ! 3) = 0x7014 \<and>
      val (registers (engine_reg (reg_state (contents vma')) (guc_id sample_rcs)) ! 3) = 0x100)"
proof -
  let ?vma = "sample_vma\<lparr>contents :=
              fst (ads_populate sample_config sample_dev 0x200000 (zero_blob sample_config))\<rparr>"
  let ?new = "registers (engine_reg (reg_state (contents ?vma)) (guc_id sample_rcs))"
  have v: "ads_vma \<lparr>ads_vma = Some ?vma\<rparr> = Some ?vma" by simp
  have al: "sample_alloc (PAGE_ALIGN sample_config (sizeof_blob sample_config)) = Inr sample_vma"
    by (simp add: sample_alloc_def)
  have fr: "regset_fresh sample_config
     (engine_reg (reg_state (contents sample_vma)) (guc_id sample_rcs))"
    by (simp add: regset_fresh_def regset_wf_def sample_vma_def zero_blob_def)
  have m: "sample_rcs \<in> set (engines sample_dev)" by (simp add: sample_dev_def)
  have d: "distinct (map guc_id (engines sample_dev))"
    by (simp add: sample_dev_def sample_rcs_def sample_vcs_def)
  have rcs: "engine_id sample_rcs = RCS sample_config"
    by (simp add: sample_rcs_def sample_config_def)
  have g: "guc_reg sample_dev = [\<lparr>addr = 0x7014, wa_value = 0x100\<rparr>]"
    by (simp add: sample_dev_def)
  have room: "3 + (if engine_id sample_rcs = RCS sample_config
                   then length (guc_reg sample_dev) else 0)
     \<le> unat (GUC_REGSET_MAX_REGISTERS sample_config)"
    by (simp add: rcs g) (simp add: sample_config_def)
  have c: "RING_HWS_PGA sample_config (mmio_base sample_rcs) = 0x2080"
    "RING_IMR sample_config (mmio_base sample_rcs) = 0x20a8"
    "I915_READ sample_dev (RING_MODE_GEN7 sample_config (mmio_base sample_rcs)) OR
       GFX_RUN_LIST_ENABLE sample_config OR GFX_INTERRUPT_STEERING sample_config OR 0xFFFF0000
     = 0xFFFFC200"
    by (simp_all add: sample_config_def sample_rcs_def sample_dev_def)
  note th = engine_save_list_order[OF sample_create v al fr m d room refl]
  from th rcs g have n: "unat (number_of_registers
      (engine_reg (reg_state (contents ?vma)) (guc_id sample_rcs))) = 4"
    by simp
  from th have o0: "offset (?new ! 0) = 0x2080" by (simp add: c)
  from th have v1: "val (?new ! 1) = 0xFFFFC200" by (simp add: c)
  from th have o2: "offset (?new ! 2) = 0x20a8" by (simp add: c)
  from th rcs have "\<forall>j < length (guc_reg sample_dev).
               offset (?new ! (3 + j)) = addr (guc_reg sample_dev ! j) \<and>
               flags (?new ! (3 + j)) =
                 GUC_REGSET_ENGINERESET sample_config OR GUC_REGSET_SAVE_DEFAULT_VALUE sample_config \<and>
               val (?new ! (3 + j)) = wa_value (guc_reg sample_dev ! j)"
    by blast
  then have w3: "offset (?new ! 3) = 0x7014" "val (?new ! 3) = 0x100"
    by (simp_all add: g)
  have l: "(0::nat) < length (guc_reg sample_dev)" by (simp add: g)
  from sample_create v n o0 v1 o2 w3 have
    "\<exists>guc' vma'.
      intel_guc_ads_create sample_config sample_dev sample_alloc sample_guc =
        Inr (guc', snd (ads_populate sample_config sample_dev 0x200000 (zero_blob sample_config))) \<and>
      ads_vma guc' = Some vma' \<and>
      unat (number_of_registers (engine_reg (reg_state (contents vma')) (guc_id sample_rcs))) = 4 \<and>
      offset (registers (engine_reg (reg_state (contents vma')) (guc_id sample_rcs)) ! 0) = 0x2080 \<and>
      val (registers (engine_reg (reg_state (contents vma')) (guc_id sample_rcs)) ! 1) = 0xFFFFC200 \<and>
      offset (registers (engine_reg (reg_state (contents vma')) (guc_id sample_rcs)) ! 2) = 0x20a8 \<and>
      offset (registers (engine_reg (reg_state (contents vma')) (guc_id sample_rcs)) ! 3) = 0x7014 \<and>
      val (registers (engine_reg (reg_state (contents vma')) (guc_id sample_rcs)) ! 3) = 0x100"
    by blast
  with al fr m d room rcs l show ?thesis by blast
qed

section \<open>The policy table\<close>

lemma stores_split:
  "guc_policies_init_stores k =
     [Set_dpc_promote_time, Set_max_num_work_items] @ policy_cells k @ [Set_is_valid]"
  by (simp add: guc_policies_init_stores_def)

lemma set_policy_cells:
  "set (policy_cells k) =
     {Init_policy p i | p i. p < GUC_CLIENT_PRIORITY_NUM k \<and>
        GUC_RENDER_ENGINE k \<le> i \<and> i < GUC_MAX_ENGINES_NUM k}"
  by (auto simp: policy_cells_def)

lemma policy_cells_are_cells: "s \<in> set (policy_cells k) \<Longrightarrow> is_cell_store s"
  by (auto simp: set_policy_cells is_cell_store_def)

lemma foldl_no_valid:
  "Set_is_valid \<notin> set ss \<Longrightarrow> is_valid (foldl (exec_store k) pol ss) = is_valid pol"
proof (induction ss arbitrary: pol)
  case Nil
  show ?case by simp
next
  case (Cons s ss)
  then show ?case by (cases s) simp_all
qed

lemma foldl_cells_table:
  "\<forall>s \<in> set ss. is_cell_store s \<Longrightarrow>
   dpc_promote_time (foldl (exec_store k) pol ss) = dpc_promote_time pol \<and>
   max_num_work_items (foldl (exec_store k) pol ss) = max_num_work_items pol"
proof (induction ss arbitrary: pol)
  case Nil
  show ?case by simp
next
  case (Cons s ss)
  then show ?case by (cases s) (simp_all add: is_cell_store_def)
qed

lemma guc_policy_init_idem: "guc_policy_init k (guc_policy_init k x) = guc_policy_init k x"
  by (simp add: guc_policy_init_def)

lemma foldl_cells_policy:
  "\<forall>s \<in> set ss. is_cell_store s \<Longrightarrow>
   policy (foldl (exec_store k) pol ss) p i =
     (if Init_policy p i \<in> set ss then guc_policy_init k (policy pol p i) else policy pol p i)"
proof (induction ss arbitrary: pol)
  case Nil
  show ?case by simp
next
  case (Cons s ss)
  from Cons.prems obtain q j where s: "s = Init_policy q j"
    by (cases s) (simp_all add: is_cell_store_def)
  from Cons.prems have rest: "\<forall>s \<in> set ss. is_cell_store s" by simp
  show ?case
    using Cons.IH[OF rest, of "exec_store k pol s"]
    by (auto simp: s guc_policy_init_idem)
qed

lemma guc_policies_init_unfold:
  "guc_policies_init k pol =
     (foldl (exec_store k)
        (pol\<lparr>dpc_promote_time := POLICY_DEFAULT_DPC_PROMOTE_TIME_US k,
             max_num_work_items := POLICY_MAX_NUM_WI k\<rparr>)
        (policy_cells k))\<lparr>is_valid := 1\<rparr>"
  by (simp add: guc_policies_init_def stores_split)

lemma valid_not_in_butlast:
  "Set_is_valid \<notin> set (butlast (guc_policies_init_stores k))"
  by (auto simp: stores_split butlast_append set_policy_cells)

lemma prefix_keeps_valid:
  assumes "n < length (guc_policies_init_stores k)"
  shows "is_valid (foldl (exec_store k) pol (take n (guc_policies_init_stores k))) = is_valid pol"
proof -
  let ?ss = "guc_policies_init_stores k"
  have ne: "?ss \<noteq> []" by (simp add: stores_split)
  have "take n ?ss = take n (butlast ?ss)"
    using assms ne by (metis take_butlast)
  moreover have "set (take n (butlast ?ss)) \<subseteq> set (butlast ?ss)" by (rule set_take_subset)
  ultimately have "Set_is_valid \<notin> set (take n ?ss)" using valid_not_in_butlast[of k] by auto
  then show ?thesis by (rule foldl_no_valid)
qed

lemma cell_positions:
  assumes "j < length (guc_policies_init_stores k)"
      and "is_cell_store (guc_policies_init_stores k ! j)"
  shows "2 \<le> j \<and> Suc j < length (guc_policies_init_stores k)"
proof -
  let ?c = "policy_cells k"
  have len: "length (guc_policies_init_stores k) = length ?c + 3" by (simp add: stores_split)
  have a: "j \<noteq> 0"
  proof
    assume "j = 0"
    with assms(2) show False by (simp add: stores_split is_cell_store_def)
  qed
  have b: "j \<noteq> 1"
  proof
    assume "j = 1"
    with assms(2) show False by (simp add: stores_split is_cell_store_def)
  qed
  have c: "j \<noteq> length ?c + 2"
  proof
    assume "j = length ?c + 2"
    with assms(2) show False by (simp add: stores_split is_cell_store_def nth_append)
  qed
  from a b c show ?thesis using assms(1) len by simp
qed

text \<open>
  The claim C5 as it is written fails in its order: the first store of the function is
  the table-level promotion time, and the first cell is written only third.
\<close>

theorem guc_policies_init_order_counterexample:
  "guc_policies_init_stores sample_config ! 0 = Set_dpc_promote_time \<and>
   guc_policies_init_stores sample_config ! 2 = Init_policy 0 0 \<and>
   \<not> spec_store_order (guc_policies_init_stores sample_config)"
proof -
  let ?ss = "guc_policies_init_stores sample_config"
  have c: "policy_cells sample_config \<noteq> []" "hd (policy_cells sample_config) = Init_policy 0 0"
    by (simp_all add: policy_cells_def sample_config_def upt_conv_Cons)
  have a: "?ss ! 0 = Set_dpc_promote_time" by (simp add: stores_split)
  have b: "?ss ! 2 = Init_policy 0 0"
    using c by (simp add: stores_split nth_append hd_conv_nth)
  have l: "2 < length ?ss" using c by (simp add: stores_split)
  have "\<not> spec_store_order ?ss"
  proof
    assume "spec_store_order ?ss"
    then have "\<forall>i < length ?ss. \<forall>j < length ?ss.
        is_table_store (?ss ! i) \<and> is_cell_store (?ss ! j) \<longrightarrow> j < i"
      by (simp add: spec_store_order_def)
    moreover have "is_table_store (?ss ! 0)" by (simp add: a is_table_store_def)
    moreover have "is_cell_store (?ss ! 2)" by (simp add: b is_cell_store_def)
    ultimately have "(2::nat) < 0" using l by (metis less_trans zero_less_numeral)
    then show False by simp
  qed
  with a b show ?thesis by simp
qed

text \<open>
  Claim C5, amended. \<^verbatim>\<open>guc_policies_init\<close> first stores the table-level promotion time
  and max-work-items, then gives every cell (every priority, every engine index from
  \<open>GUC_RENDER_ENGINE\<close> up) the default execution quantum, preemption time and fault
  time and flags 0, and stores the validity flag as its last store: the cell stores
  stand strictly between the first two stores and the last, the flag keeps its old
  value after every proper prefix of the stores, and after the last store the flag is
  1 and every cell and both table-level fields hold their defaults.
\<close>

theorem guc_policies_init_valid_last:
  "take 2 (guc_policies_init_stores k) = [Set_dpc_promote_time, Set_max_num_work_items] \<and>
   last (guc_policies_init_stores k) = Set_is_valid \<and>
   (\<forall>j < length (guc_policies_init_stores k).
      is_cell_store (guc_policies_init_stores k ! j) \<longrightarrow>
        2 \<le> j \<and> Suc j < length (guc_policies_init_stores k)) \<and>
   (\<forall>n < length (guc_policies_init_stores k).
      is_valid (foldl (exec_store k) pol (take n (guc_policies_init_stores k))) = is_valid pol) \<and>
   is_valid (guc_policies_init k pol) = 1 \<and>
   dpc_promote_time (guc_policies_init k pol) = POLICY_DEFAULT_DPC_PROMOTE_TIME_US k \<and>
   max_num_work_items (guc_policies_init k pol) = POLICY_MAX_NUM_WI k \<and>
   (\<forall>p < GUC_CLIENT_PRIORITY_NUM k. \<forall>i.
      GUC_RENDER_ENGINE k \<le> i \<and> i < GUC_MAX_ENGINES_NUM k \<longrightarrow>
        execution_quantum (policy (guc_policies_init k pol) p i) =
          POLICY_DEFAULT_EXECUTION_QUANTUM_US k \<and>
        preemption_time (policy (guc_policies_init k pol) p i) =
          POLICY_DEFAULT_PREEMPTION_TIME_US k \<and>
        fault_time (policy (guc_policies_init k pol) p i) = POLICY_DEFAULT_FAULT_TIME_US k \<and>
        policy_flags (policy (guc_policies_init k pol) p i) = 0)"
proof -
  let ?ss = "guc_policies_init_stores k"
  let ?pol1 = "pol\<lparr>dpc_promote_time := POLICY_DEFAULT_DPC_PROMOTE_TIME_US k,
                   max_num_work_items := POLICY_MAX_NUM_WI k\<rparr>"
  have cells: "\<forall>s \<in> set (policy_cells k). is_cell_store s"
    using policy_cells_are_cells by blast
  have t: "take 2 ?ss = [Set_dpc_promote_time, Set_max_num_work_items]"
    by (simp add: stores_split)
  have l: "last ?ss = Set_is_valid" by (simp add: stores_split)
  have pos: "\<forall>j < length ?ss. is_cell_store (?ss ! j) \<longrightarrow> 2 \<le> j \<and> Suc j < length ?ss"
    using cell_positions by blast
  have pre: "\<forall>n < length ?ss. is_valid (foldl (exec_store k) pol (take n ?ss)) = is_valid pol"
    using prefix_keeps_valid by blast
  have v: "is_valid (guc_policies_init k pol) = 1" by (simp add: guc_policies_init_unfold)
  have d: "dpc_promote_time (guc_policies_init k pol) = POLICY_DEFAULT_DPC_PROMOTE_TIME_US k"
    "max_num_work_items (guc_policies_init k pol) = POLICY_MAX_NUM_WI k"
    using foldl_cells_table[OF cells, of k ?pol1] by (simp_all add: guc_policies_init_unfold)
  have c: "\<forall>p < GUC_CLIENT_PRIORITY_NUM k. \<forall>i.
      GUC_RENDER_ENGINE k \<le> i \<and> i < GUC_MAX_ENGINES_NUM k \<longrightarrow>
        execution_quantum (policy (guc_policies_init k pol) p i) =
          POLICY_DEFAULT_EXECUTION_QUANTUM_US k \<and>
        preemption_time (policy (guc_policies_init k pol) p i) =
          POLICY_DEFAULT_PREEMPTION_TIME_US k \<and>
        fault_time (policy (guc_policies_init k pol) p i) = POLICY_DEFAULT_FAULT_TIME_US k \<and>
        policy_flags (policy (guc_policies_init k pol) p i) = 0"
  proof (intro allI impI)
    fix p i
    assume p: "p < GUC_CLIENT_PRIORITY_NUM k"
      and i: "GUC_RENDER_ENGINE k \<le> i \<and> i < GUC_MAX_ENGINES_NUM k"
    then have m: "Init_policy p i \<in> set (policy_cells k)" by (auto simp: set_policy_cells)
    have "policy (guc_policies_init k pol) p i = guc_policy_init k (policy ?pol1 p i)"
      using foldl_cells_policy[OF cells, of k ?pol1 p i] m
      by (simp add: guc_policies_init_unfold)
    then show "execution_quantum (policy (guc_policies_init k pol) p i) =
          POLICY_DEFAULT_EXECUTION_QUANTUM_US k \<and>
        preemption_time (policy (guc_policies_init k pol) p i) =
          POLICY_DEFAULT_PREEMPTION_TIME_US k \<and>
        fault_time (policy (guc_policies_init k pol) p i) = POLICY_DEFAULT_FAULT_TIME_US k \<and>
        policy_flags (policy (guc_policies_init k pol) p i) = 0"
      by (simp add: guc_policy_init_def)
  qed
  from t l pos pre v d c show ?thesis by blast
qed

theorem guc_policies_init_valid_last_witness:
  "(3::nat) < GUC_CLIENT_PRIORITY_NUM sample_config \<and>
   GUC_RENDER_ENGINE sample_config \<le> 4 \<and> (4::nat) < GUC_MAX_ENGINES_NUM sample_config \<and>
   execution_quantum (policy (guc_policies_init sample_config (policies (zero_blob sample_config))) 3 4)
     = 1000000 \<and>
   policy_flags (policy (guc_policies_init sample_config (policies (zero_blob sample_config))) 3 4)
     = 0 \<and>
   (2::nat) < length (guc_policies_init_stores sample_config) \<and>
   is_cell_store (guc_policies_init_stores sample_config ! 2) \<and>
   is_valid (foldl (exec_store sample_config) (policies (zero_blob sample_config))
               (take 2 (guc_policies_init_stores sample_config))) = 0 \<and>
   is_valid (guc_policies_init sample_config (policies (zero_blob sample_config))) = 1"
proof -
  let ?ss = "guc_policies_init_stores sample_config"
  let ?pol = "policies (zero_blob sample_config)"
  have h: "(3::nat) < GUC_CLIENT_PRIORITY_NUM sample_config"
    "GUC_RENDER_ENGINE sample_config \<le> 4" "(4::nat) < GUC_MAX_ENGINES_NUM sample_config"
    by (simp_all add: sample_config_def)
  have c: "policy_cells sample_config \<noteq> []" "hd (policy_cells sample_config) = Init_policy 0 0"
    by (simp_all add: policy_cells_def sample_config_def upt_conv_Cons)
  have l: "2 < length ?ss" using c by (simp add: stores_split)
  have b: "is_cell_store (?ss ! 2)"
    using c by (simp add: stores_split nth_append hd_conv_nth is_cell_store_def)
  have z: "is_valid ?pol = 0" by (simp add: zero_blob_def)
  have q: "POLICY_DEFAULT_EXECUTION_QUANTUM_US sample_config = 1000000"
    by (simp add: sample_config_def)
  from guc_policies_init_valid_last[of sample_config ?pol] h l b z q
  show ?thesis by auto
qed

section \<open>The worker\<close>

lemma idx_less_2: "unat ((c :: u64) AND 1) < 2"
proof -
  have "c AND 1 \<le> 1" by (rule word_and_le1)
  then have "unat (c AND 1) \<le> unat (1 :: u64)" by (simp add: word_le_nat_alt)
  then show ?thesis by simp
qed

lemma worker_inv_init: "worker_inv worker_init"
  by (simp add: worker_inv_def worker_init_def)

lemma slot_requests_update:
  assumes "length (rq w) = 2" and "idx < 2"
  shows "slot_requests w \<subseteq>
           insert new {r. Some r \<in> set ((rq w)[idx := Some new])} \<union>
           (case rq w ! idx of None \<Rightarrow> {} | Some r \<Rightarrow> {r})"
proof
  fix r assume "r \<in> slot_requests w"
  then obtain j where j: "j < 2" "rq w ! j = Some r"
    using assms(1) by (auto simp: slot_requests_def in_set_conv_nth)
  show "r \<in> insert new {r. Some r \<in> set ((rq w)[idx := Some new])} \<union>
           (case rq w ! idx of None \<Rightarrow> {} | Some r \<Rightarrow> {r})"
  proof (cases "j = idx")
    case True
    with j show ?thesis by simp
  next
    case False
    then have "(rq w)[idx := Some new] ! j = Some r" using j by simp
    moreover have "j < length ((rq w)[idx := Some new])" using j assms(1) by simp
    ultimately have "Some r \<in> set ((rq w)[idx := Some new])" by (metis nth_mem)
    then show ?thesis by simp
  qed
qed

lemma worker_step_inv:
  assumes "worker_inv w" and "worker_step w e = Some w'"
  shows "worker_inv w'"
proof (cases e)
  case Submit
  let ?idx = "unat (count_w w AND 1)"
  from assms(2) Submit have head: "pc w = Loop_head"
    by (simp split: if_splits)
  from assms(2) Submit head have w': "w' = w\<lparr>count_w := count_w w + 1,
                      rq := (rq w)[?idx := Some (next_request w)],
                      next_request := Suc (next_request w),
                      in_flight := insert (next_request w) (in_flight w),
                      pc := (case rq w ! ?idx of None \<Rightarrow> Loop_head | Some r \<Rightarrow> Waiting r)\<rparr>"
    by (simp add: Let_def)
  from assms(1) have len: "length (rq w) = 2" and sub: "in_flight w \<subseteq> slot_requests w"
    using head by (simp_all add: worker_inv_def awaited_def)
  note upd = slot_requests_update[where w=w and idx="?idx" and new="next_request w",
      OF len idx_less_2]
  have aw: "awaited w' = (case rq w ! ?idx of None \<Rightarrow> {} | Some r \<Rightarrow> {r})"
    by (simp add: w' awaited_def split: option.splits)
  have sl: "slot_requests w' = {r. Some r \<in> set ((rq w)[?idx := Some (next_request w)])}"
    by (simp add: w' slot_requests_def)
  have nw: "next_request w \<in> slot_requests w'"
    using len idx_less_2[of "count_w w"] unfolding sl by (simp add: set_update_memI)
  have "in_flight w' = insert (next_request w) (in_flight w)" by (simp add: w')
  then have "in_flight w' \<subseteq> slot_requests w' \<union> awaited w'"
    using sub upd nw unfolding aw sl by auto
  moreover have "length (rq w') = 2" using len by (simp add: w')
  ultimately show ?thesis by (simp add: worker_inv_def)
next
  case (Alloc_fails x)
  with assms show ?thesis
    by (auto simp: worker_inv_def slot_requests_def awaited_def split: if_splits)
next
  case Wait_returns
  with assms show ?thesis
    by (auto simp: worker_inv_def slot_requests_def awaited_def
        split: if_splits worker_pc.splits)
next
  case (Completes r)
  with assms show ?thesis
    by (auto simp: worker_inv_def slot_requests_def awaited_def
        split: if_splits worker_pc.splits)
next
  case Should_stop
  with assms show ?thesis
    by (auto simp: worker_inv_def slot_requests_def awaited_def split: if_splits)
qed

lemma worker_run_inv:
  "worker_inv w \<Longrightarrow> worker_run w es = Some w' \<Longrightarrow> worker_inv w'"
proof (induction es arbitrary: w)
  case Nil
  then show ?case by simp
next
  case (Cons e es)
  then show ?case by (auto split: option.splits dest: worker_step_inv)
qed

lemma card_slot_requests:
  assumes "length (rq w) = 2"
  shows "finite (slot_requests w) \<and> card (slot_requests w) \<le> 2"
proof -
  have sub: "slot_requests w \<subseteq> the ` set (rq w)"
    by (force simp: slot_requests_def)
  have "card (the ` set (rq w)) \<le> card (set (rq w))" by (rule card_image_le) simp
  also have "\<dots> \<le> length (rq w)" by (rule card_length)
  finally have "card (the ` set (rq w)) \<le> 2" using assms by simp
  moreover have "finite (the ` set (rq w))" by simp
  ultimately show ?thesis using sub
    by (meson card_mono finite_subset le_trans)
qed

text \<open>
  The claim C8 as it is written fails: after three turns of the loop without a
  completion the worker has stored its third request in slot 0 and submitted it, and
  only now waits for request 0, the previous occupant of the slot; three requests are
  in flight.
\<close>

theorem worker_outstanding_counterexample:
  "worker_run worker_init [Submit, Submit, Submit] =
     Some \<lparr>pc = Waiting 0, count_w = 3, rq = [Some 2, Some 1], next_request = 3,
           in_flight = {2, 1, 0}, err_w = 0\<rparr> \<and>
   card {2, 1, 0 :: nat} = 3 \<and> \<not> card {2, 1, 0 :: nat} \<le> 2"
  by (simp add: worker_init_def Let_def numeral_2_eq_2 numeral_3_eq_3)

text \<open>
  Claim C8, amended. At every point of the submit loop at most 3 submissions of the
  worker are outstanding, and at most 2 whenever the worker is not waiting: the worker
  stores and submits the new request in a slot of its double buffer first and waits
  for the previous occupant of the slot after that, so a request in flight is either
  in one of the two slots or the one being waited for.
\<close>

theorem worker_outstanding_bound:
  assumes "worker_run worker_init es = Some w"
  shows "finite (in_flight w) \<and> card (in_flight w) \<le> 3 \<and>
         ((\<forall>r. pc w \<noteq> Waiting r) \<longrightarrow> card (in_flight w) \<le> 2) \<and>
         (\<forall>r \<in> in_flight w. Some r \<in> set (rq w) \<or> pc w = Waiting r)"
proof -
  have inv: "worker_inv w" using worker_run_inv[OF worker_inv_init assms] .
  then have len: "length (rq w) = 2" and sub: "in_flight w \<subseteq> slot_requests w \<union> awaited w"
    by (simp_all add: worker_inv_def)
  note c = card_slot_requests[OF len]
  have fa: "finite (awaited w)" and ca: "card (awaited w) \<le> 1"
    by (simp_all add: awaited_def split: worker_pc.splits)
  have fu: "finite (slot_requests w \<union> awaited w)" using c fa by simp
  have fin: "finite (in_flight w)" using sub fu by (rule finite_subset)
  have "card (in_flight w) \<le> card (slot_requests w \<union> awaited w)"
    using sub fu by (simp add: card_mono)
  also have "\<dots> \<le> card (slot_requests w) + card (awaited w)" by (rule card_Un_le)
  finally have b3: "card (in_flight w) \<le> 3" using c ca by simp
  have b2: "(\<forall>r. pc w \<noteq> Waiting r) \<longrightarrow> card (in_flight w) \<le> 2"
  proof
    assume "\<forall>r. pc w \<noteq> Waiting r"
    then have "awaited w = {}" by (simp add: awaited_def split: worker_pc.splits)
    with sub have "in_flight w \<subseteq> slot_requests w" by simp
    then have "card (in_flight w) \<le> card (slot_requests w)" using c by (simp add: card_mono)
    then show "card (in_flight w) \<le> 2" using c by simp
  qed
  have wh: "\<forall>r \<in> in_flight w. Some r \<in> set (rq w) \<or> pc w = Waiting r"
    using sub by (auto simp: slot_requests_def awaited_def split: worker_pc.splits)
  from fin b3 b2 wh show ?thesis by blast
qed

theorem worker_outstanding_bound_witness:
  "worker_run worker_init [Submit, Submit, Submit, Completes 0, Wait_returns] =
     Some \<lparr>pc = Loop_head, count_w = 3, rq = [Some 2, Some 1], next_request = 3,
           in_flight = {2, 1}, err_w = 0\<rparr> \<and>
   (\<forall>r. Loop_head \<noteq> Waiting r) \<and>
   card {2, 1 :: nat} \<le> 2 \<and> (2::nat) \<in> {2, 1} \<and> Some 2 \<in> set [Some 2, Some (1::nat)]"
proof -
  have run: "worker_run worker_init [Submit, Submit, Submit, Completes 0, Wait_returns] =
     Some \<lparr>pc = Loop_head, count_w = 3, rq = [Some 2, Some 1], next_request = 3,
           in_flight = {2, 1}, err_w = 0\<rparr>"
    by (simp add: worker_init_def Let_def insert_commute numeral_2_eq_2 numeral_3_eq_3)
  from worker_outstanding_bound[OF run] run show ?thesis by simp
qed

section \<open>The isolation harness\<close>

lemma EIO_nonzero: "- EIO \<noteq> 0"
  by (simp add: EIO_def)

lemma log_simps: "fst (log e s) = fst s" "snd (log e s) = snd s @ [e]"
  by (simp_all add: log_def)

lemma read_reset_engine_count_simps:
  "fst (read_reset_engine_count env e s) = i915_reset_engine_count env (fst s) e"
  "fst (snd (read_reset_engine_count env e s)) = fst s"
  "snd (snd (read_reset_engine_count env e s)) =
     snd s @ [Ev_reset_engine_count e (i915_reset_engine_count env (fst s) e)]"
  by (simp_all add: read_reset_engine_count_def Let_def log_def)

lemma read_reset_count_simps:
  "fst (read_reset_count env s) = i915_reset_count env (fst s)"
  "fst (snd (read_reset_count env s)) = fst s"
  "snd (snd (read_reset_count env s)) = snd s @ [Ev_reset_count (i915_reset_count env (fst s))]"
  by (simp_all add: read_reset_count_def Let_def log_def)

lemma call_kthread_run_trace:
  "call_kthread_run env e s = (r, s') \<Longrightarrow> snd s' = snd s @ [Ev_kthread_run e r]"
  by (auto simp: call_kthread_run_def split: prod.splits)

lemma call_kthread_stop_trace:
  "call_kthread_stop env e s = (r, s') \<Longrightarrow> snd s' = snd s @ [Ev_kthread_stop e r]"
  by (auto simp: call_kthread_stop_def split: prod.splits)

lemma call_reset_engine_trace:
  "call_reset_engine env e s = (r, s') \<Longrightarrow> snd s' = snd s @ [Ev_reset_engine e r]"
  by (auto simp: call_reset_engine_def split: prod.splits)

lemma start_threads_trace:
  assumes "start_threads env engine es threads resets s = (err, threads', resets', s')"
      and "distinct es"
  shows "\<exists>tr. snd s' = snd s @ tr \<and>
           (\<forall>e \<in> set tr. start_event engine es resets' err e) \<and>
           (\<forall>tmp. threads' tmp \<longrightarrow> threads tmp \<or>
              (tmp \<in> set es \<and> tmp \<noteq> engine \<and> Ev_reset_engine_count tmp (resets' tmp) \<in> set tr)) \<and>
           (\<forall>tmp. tmp \<notin> set es \<longrightarrow> resets' tmp = resets tmp) \<and>
           (err \<noteq> 0 \<longrightarrow> (\<exists>tmp. Ev_kthread_run tmp err \<in> set tr))"
  using assms
proof (induction es arbitrary: threads resets s)
  case Nil
  then show ?case by simp
next
  case (Cons tmp rest)
  from Cons.prems(2) have d: "distinct rest" and notin: "tmp \<notin> set rest" by simp_all
  show ?case
  proof (cases "tmp = engine")
    case True
    with Cons.prems(1) have run: "start_threads env engine rest threads resets s =
        (err, threads', resets', s')" by simp
    from Cons.IH[OF run d] obtain tr where tr: "snd s' = snd s @ tr"
      "\<forall>e \<in> set tr. start_event engine rest resets' err e"
      "\<forall>t. threads' t \<longrightarrow> threads t \<or>
              (t \<in> set rest \<and> t \<noteq> engine \<and> Ev_reset_engine_count t (resets' t) \<in> set tr)"
      "\<forall>t. t \<notin> set rest \<longrightarrow> resets' t = resets t"
      "err \<noteq> 0 \<longrightarrow> (\<exists>t. Ev_kthread_run t err \<in> set tr)"
      by blast
    have ev: "\<forall>e \<in> set tr. start_event engine (tmp # rest) resets' err e"
      using tr(2) by (auto simp: start_event_def)
    from tr(1) ev tr(3,4,5) show ?thesis by auto
  next
    case False
    let ?v = "i915_reset_engine_count env (fst s) tmp"
    let ?s1 = "log (Ev_reset_engine_count tmp ?v) s"
    obtain tsk s2 where k: "call_kthread_run env tmp ?s1 = (tsk, s2)"
      by (cases "call_kthread_run env tmp ?s1")
    have t2: "snd s2 = snd s @ [Ev_reset_engine_count tmp ?v, Ev_kthread_run tmp tsk]"
      using call_kthread_run_trace[OF k] by (simp add: log_simps)
    have rd: "read_reset_engine_count env tmp s = (?v, ?s1)"
      by (simp add: read_reset_engine_count_def Let_def)
    show ?thesis
    proof (cases "tsk = 0")
      case True
      with Cons.prems(1) False rd k have run:
        "start_threads env engine rest (threads(tmp := True)) (resets(tmp := ?v)) s2 =
           (err, threads', resets', s')" by simp
      from Cons.IH[OF run d] obtain tr where tr: "snd s' = snd s2 @ tr"
        "\<forall>e \<in> set tr. start_event engine rest resets' err e"
        "\<forall>t. threads' t \<longrightarrow> (threads(tmp := True)) t \<or>
              (t \<in> set rest \<and> t \<noteq> engine \<and> Ev_reset_engine_count t (resets' t) \<in> set tr)"
        "\<forall>t. t \<notin> set rest \<longrightarrow> resets' t = (resets(tmp := ?v)) t"
        "err \<noteq> 0 \<longrightarrow> (\<exists>t. Ev_kthread_run t err \<in> set tr)"
        by blast
      let ?tr = "[Ev_reset_engine_count tmp ?v, Ev_kthread_run tmp tsk] @ tr"
      have r': "resets' tmp = ?v" using tr(4) notin by simp
      have a: "snd s' = snd s @ ?tr" using tr(1) t2 by simp
      have b: "\<forall>e \<in> set ?tr. start_event engine (tmp # rest) resets' err e"
        using tr(2) r' False True by (auto simp: start_event_def)
      have c: "\<forall>t. threads' t \<longrightarrow> threads t \<or>
              (t \<in> set (tmp # rest) \<and> t \<noteq> engine \<and>
               Ev_reset_engine_count t (resets' t) \<in> set ?tr)"
        using tr(3) r' False by (auto split: if_splits)
      have e: "\<forall>t. t \<notin> set (tmp # rest) \<longrightarrow> resets' t = resets t"
        using tr(4) by simp
      have f: "err \<noteq> 0 \<longrightarrow> (\<exists>t. Ev_kthread_run t err \<in> set ?tr)"
        using tr(5) by auto
      from a b c e f show ?thesis by blast
    next
      case nz: False
      with Cons.prems(1) False rd k have res:
        "err = tsk" "threads' = threads" "resets' = resets(tmp := ?v)" "s' = s2" by simp_all
      let ?tr = "[Ev_reset_engine_count tmp ?v, Ev_kthread_run tmp tsk]"
      have a: "snd s' = snd s @ ?tr" using t2 res by simp
      have b: "\<forall>e \<in> set ?tr. start_event engine (tmp # rest) resets' err e"
        using res False by (auto simp: start_event_def)
      have c: "\<forall>t. threads' t \<longrightarrow> threads t \<or>
              (t \<in> set (tmp # rest) \<and> t \<noteq> engine \<and>
               Ev_reset_engine_count t (resets' t) \<in> set ?tr)"
        using res by simp
      have e: "\<forall>t. t \<notin> set (tmp # rest) \<longrightarrow> resets' t = resets t"
        using res by simp
      have f: "err \<noteq> 0 \<longrightarrow> (\<exists>t. Ev_kthread_run t err \<in> set ?tr)"
        using res by auto
      from a b c e f show ?thesis by blast
    qed
  qed
qed

lemma reset_attempt_trace:
  assumes "reset_attempt env do_reset engine s = (err, s')"
  shows "\<exists>tr. snd s' = snd s @ tr \<and>
           (\<forall>e \<in> set tr. e = Ev_pr_err \<or> (\<exists>r. e = Ev_reset_engine engine r \<and> (r \<noteq> 0 \<longrightarrow> r = err))) \<and>
           (err \<noteq> 0 \<longrightarrow> Ev_reset_engine engine err \<in> set tr)"
proof (cases do_reset)
  case False
  with assms show ?thesis by (simp add: reset_attempt_def)
next
  case True
  obtain r s1 where c: "call_reset_engine env engine s = (r, s1)"
    by (cases "call_reset_engine env engine s")
  note t = call_reset_engine_trace[OF c]
  show ?thesis
  proof (cases "r = 0")
    case True
    with assms \<open>do_reset\<close> c have "err = 0" "s' = s1" by (simp_all add: reset_attempt_def)
    with t True show ?thesis by simp
  next
    case False
    with assms \<open>do_reset\<close> c have "err = r" "s' = log Ev_pr_err s1"
      by (simp_all add: reset_attempt_def)
    with t False show ?thesis by (simp add: log_simps)
  qed
qed

lemma reset_loop_trace:
  assumes "reset_loop env do_reset engine n s = (err, s')"
  shows "\<exists>tr. snd s' = snd s @ tr \<and>
           (\<forall>e \<in> set tr. e = Ev_pr_err \<or> (\<exists>r. e = Ev_reset_engine engine r \<and> (r \<noteq> 0 \<longrightarrow> r = err))) \<and>
           (err \<noteq> 0 \<longrightarrow> Ev_reset_engine engine err \<in> set tr)"
  using assms
proof (induction n arbitrary: s)
  case 0
  then show ?case using reset_attempt_trace by simp
next
  case (Suc n)
  obtain e1 s1 where a: "reset_attempt env do_reset engine s = (e1, s1)"
    by (cases "reset_attempt env do_reset engine s")
  from reset_attempt_trace[OF a] obtain tr1 where tr1: "snd s1 = snd s @ tr1"
    "\<forall>e \<in> set tr1. e = Ev_pr_err \<or> (\<exists>r. e = Ev_reset_engine engine r \<and> (r \<noteq> 0 \<longrightarrow> r = e1))"
    "e1 \<noteq> 0 \<longrightarrow> Ev_reset_engine engine e1 \<in> set tr1"
    by blast
  show ?case
  proof (cases "e1 = 0")
    case False
    with Suc.prems a have "err = e1" "s' = s1" by simp_all
    with tr1 show ?thesis by blast
  next
    case True
    with Suc.prems a have run: "reset_loop env do_reset engine n s1 = (err, s')" by simp
    from Suc.IH[OF run] obtain tr2 where tr2: "snd s' = snd s1 @ tr2"
      "\<forall>e \<in> set tr2. e = Ev_pr_err \<or> (\<exists>r. e = Ev_reset_engine engine r \<and> (r \<noteq> 0 \<longrightarrow> r = err))"
      "err \<noteq> 0 \<longrightarrow> Ev_reset_engine engine err \<in> set tr2"
      by blast
    have a': "snd s' = snd s @ (tr1 @ tr2)" using tr1(1) tr2(1) by simp
    have b': "\<forall>e \<in> set (tr1 @ tr2). e = Ev_pr_err \<or>
        (\<exists>r. e = Ev_reset_engine engine r \<and> (r \<noteq> 0 \<longrightarrow> r = err))"
      using tr1(2) tr2(2) True by auto
    have c': "err \<noteq> 0 \<longrightarrow> Ev_reset_engine engine err \<in> set (tr1 @ tr2)"
      using tr2(3) by simp
    from a' b' c' show ?thesis by blast
  qed
qed

lemma unwind_trace:
  assumes "unwind env threads resets es err s = (err', s')"
  shows "\<exists>tr. snd s' = snd s @ tr \<and>
           (\<forall>e \<in> set tr. unwind_event threads resets es err' e) \<and>
           (err' \<noteq> 0 \<longrightarrow> err' = err \<or> (\<exists>tmp. Ev_kthread_stop tmp err' \<in> set tr) \<or>
              (\<exists>tmp v. Ev_reset_engine_count tmp v \<in> set tr \<and> threads tmp \<and> v \<noteq> resets tmp)) \<and>
           (err = - EIO \<longrightarrow> err' = - EIO)"
  using assms
proof (induction es arbitrary: err s)
  case Nil
  then show ?case by simp
next
  case (Cons tmp rest)
  show ?case
  proof (cases "threads tmp")
    case False
    with Cons.prems have run: "unwind env threads resets rest err s = (err', s')" by simp
    from Cons.IH[OF run] obtain tr where tr: "snd s' = snd s @ tr"
      "\<forall>e \<in> set tr. unwind_event threads resets rest err' e"
      "err' \<noteq> 0 \<longrightarrow> err' = err \<or> (\<exists>t. Ev_kthread_stop t err' \<in> set tr) \<or>
              (\<exists>t v. Ev_reset_engine_count t v \<in> set tr \<and> threads t \<and> v \<noteq> resets t)"
      "err = - EIO \<longrightarrow> err' = - EIO"
      by blast
    have "\<forall>e \<in> set tr. unwind_event threads resets (tmp # rest) err' e"
      using tr(2) by (auto simp: unwind_event_def)
    with tr show ?thesis by blast
  next
    case True
    obtain ret s1 where k: "call_kthread_stop env tmp s = (ret, s1)"
      by (cases "call_kthread_stop env tmp s")
    let ?err1 = "if ret \<noteq> 0 then (if err = 0 then ret else err) else err"
    let ?s2 = "if ret \<noteq> 0 then log Ev_pr_err s1 else s1"
    let ?v = "i915_reset_engine_count env (fst ?s2) tmp"
    let ?s3 = "log (Ev_reset_engine_count tmp ?v) ?s2"
    let ?s4 = "log Ev_pr_err (log (Ev_reset_engine_count tmp ?v) ?s3)"
    let ?pre = "[Ev_kthread_stop tmp ret] @ (if ret \<noteq> 0 then [Ev_pr_err] else []) @
                [Ev_reset_engine_count tmp ?v]"
    have t3: "snd ?s3 = snd s @ ?pre"
      using call_kthread_stop_trace[OF k] by (simp add: log_simps)
    have w3: "fst ?s3 = fst ?s2" by (simp add: log_simps)
    show ?thesis
    proof (cases "resets tmp = ?v")
      case same: True
      with Cons.prems True k have run: "unwind env threads resets rest ?err1 ?s3 = (err', s')"
        by (auto simp: read_reset_engine_count_def Let_def split: if_splits)
      from Cons.IH[OF run] obtain tr where tr: "snd s' = snd ?s3 @ tr"
        "\<forall>e \<in> set tr. unwind_event threads resets rest err' e"
        "err' \<noteq> 0 \<longrightarrow> err' = ?err1 \<or> (\<exists>t. Ev_kthread_stop t err' \<in> set tr) \<or>
              (\<exists>t v. Ev_reset_engine_count t v \<in> set tr \<and> threads t \<and> v \<noteq> resets t)"
        "?err1 = - EIO \<longrightarrow> err' = - EIO"
        by blast
      have a: "snd s' = snd s @ (?pre @ tr)" using tr(1) t3 by simp
      have b: "\<forall>e \<in> set (?pre @ tr). unwind_event threads resets (tmp # rest) err' e"
        using tr(2) True same by (auto simp: unwind_event_def)
      have c: "err' \<noteq> 0 \<longrightarrow> err' = err \<or> (\<exists>t. Ev_kthread_stop t err' \<in> set (?pre @ tr)) \<or>
              (\<exists>t v. Ev_reset_engine_count t v \<in> set (?pre @ tr) \<and> threads t \<and> v \<noteq> resets t)"
        using tr(3) by (auto split: if_splits)
      have d: "err = - EIO \<longrightarrow> err' = - EIO"
        using tr(4) EIO_nonzero by (auto split: if_splits)
      from a b c d show ?thesis by blast
    next
      case diff: False
      with Cons.prems True k have run: "unwind env threads resets rest (- EIO) ?s4 = (err', s')"
        by (auto simp: read_reset_engine_count_def Let_def log_simps split: if_splits)
      from Cons.IH[OF run] obtain tr where tr: "snd s' = snd ?s4 @ tr"
        "\<forall>e \<in> set tr. unwind_event threads resets rest err' e"
        "- EIO = - EIO \<longrightarrow> err' = - EIO"
        by blast
      then have eio: "err' = - EIO" by simp
      let ?mid = "?pre @ [Ev_reset_engine_count tmp ?v, Ev_pr_err]"
      have a: "snd s' = snd s @ (?mid @ tr)" using tr(1) t3 by (simp add: log_simps)
      have b: "\<forall>e \<in> set (?mid @ tr). unwind_event threads resets (tmp # rest) err' e"
        using tr(2) True eio by (auto simp: unwind_event_def)
      have c: "\<exists>t v. Ev_reset_engine_count t v \<in> set (?mid @ tr) \<and> threads t \<and> v \<noteq> resets t"
        using True diff by (intro exI[of _ tmp] exI[of _ ?v]) auto
      from a b c eio show ?thesis by blast
    qed
  qed
qed

lemma reset_phase_trace:
  assumes "(if err1 \<noteq> 0 then (err1, s2)
            else case reset_loop env do_reset engine n (call_set_bit env engine s2) of
                   (e, s') \<Rightarrow> (e, call_clear_bit env engine s')) = (err2, s3)"
  shows "\<exists>tr. snd s3 = snd s2 @ tr \<and>
           (\<forall>e \<in> set tr. e = Ev_pr_err \<or> e = Ev_set_bit engine \<or> e = Ev_clear_bit engine \<or>
                          (\<exists>r. e = Ev_reset_engine engine r)) \<and>
           (err2 \<noteq> 0 \<longrightarrow> err2 = err1 \<or> Ev_reset_engine engine err2 \<in> set tr)"
proof (cases "err1 = 0")
  case False
  with assms have "err2 = err1" "s3 = s2" by simp_all
  then show ?thesis by simp
next
  case True
  obtain e sL where l: "reset_loop env do_reset engine n (call_set_bit env engine s2) = (e, sL)"
    by (cases "reset_loop env do_reset engine n (call_set_bit env engine s2)")
  from assms True l have r: "err2 = e" "s3 = call_clear_bit env engine sL" by simp_all
  from reset_loop_trace[OF l] obtain trL where trL:
    "snd sL = snd (call_set_bit env engine s2) @ trL"
    "\<forall>x \<in> set trL. x = Ev_pr_err \<or> (\<exists>r. x = Ev_reset_engine engine r \<and> (r \<noteq> 0 \<longrightarrow> r = e))"
    "e \<noteq> 0 \<longrightarrow> Ev_reset_engine engine e \<in> set trL"
    by blast
  let ?tr = "[Ev_set_bit engine] @ trL @ [Ev_clear_bit engine]"
  have a: "snd s3 = snd s2 @ ?tr"
    using trL(1) r by (simp add: call_set_bit_def call_clear_bit_def)
  have b: "\<forall>x \<in> set ?tr. x = Ev_pr_err \<or> x = Ev_set_bit engine \<or> x = Ev_clear_bit engine \<or>
                          (\<exists>r. x = Ev_reset_engine engine r)"
    using trL(2) by auto
  have c: "err2 \<noteq> 0 \<longrightarrow> err2 = err1 \<or> Ev_reset_engine engine err2 \<in> set ?tr"
    using trL(3) r by simp
  from a b c show ?thesis by blast
qed

lemma target_round_trace:
  assumes run: "target_round env do_reset engine s = (err, s')"
      and dist: "distinct (for_each_engine env)"
  shows "\<exists>tr. snd s' = snd s @ tr \<and>
           (\<forall>v. Ev_reset_engine_count engine v \<notin> set tr) \<and>
           (i915_reset_count env (fst s') \<noteq> i915_reset_count env (fst s) \<longrightarrow> err = - EIO) \<and>
           (\<forall>tmp v v'. Ev_reset_engine_count tmp v \<in> set tr \<and>
                        Ev_reset_engine_count tmp v' \<in> set tr \<and> v \<noteq> v' \<longrightarrow> err = - EIO) \<and>
           (err \<noteq> 0 \<longrightarrow>
              i915_reset_count env (fst s') \<noteq> i915_reset_count env (fst s) \<or>
              (\<exists>tmp v v'. Ev_reset_engine_count tmp v \<in> set tr \<and>
                           Ev_reset_engine_count tmp v' \<in> set tr \<and> v \<noteq> v') \<or>
              (\<exists>tmp. Ev_kthread_run tmp err \<in> set tr) \<or>
              Ev_reset_engine engine err \<in> set tr \<or>
              (\<exists>tmp. Ev_kthread_stop tmp err \<in> set tr))"
proof -
  let ?es = "for_each_engine env"
  let ?gstart = "i915_reset_count env (fst s)"
  let ?sa = "log (Ev_reset_count ?gstart) s"
  let ?n = "deadline_tests env (fst ?sa)"
  obtain err1 threads resets s2 where st:
    "start_threads env engine ?es (\<lambda>_. False) (stack_resets env) ?sa = (err1, threads, resets, s2)"
    by (cases "start_threads env engine ?es (\<lambda>_. False) (stack_resets env) ?sa") auto
  obtain err2 s3 where mid:
    "(if err1 \<noteq> 0 then (err1, s2)
      else case reset_loop env do_reset engine ?n (call_set_bit env engine s2) of
             (e, s') \<Rightarrow> (e, call_clear_bit env engine s')) = (err2, s3)"
    by (cases "(if err1 \<noteq> 0 then (err1, s2)
      else case reset_loop env do_reset engine ?n (call_set_bit env engine s2) of
             (e, s') \<Rightarrow> (e, call_clear_bit env engine s'))") auto
  obtain err3 s4 where un: "unwind env threads resets ?es err2 s3 = (err3, s4)"
    by (cases "unwind env threads resets ?es err2 s3")
  let ?g = "i915_reset_count env (fst s4)"
  let ?se = "log (Ev_reset_count ?g) s4"
  have res: "(err, s') = (if ?gstart \<noteq> ?g then (- EIO, log Ev_pr_err (log (Ev_reset_count ?g) ?se))
                          else (err3, ?se))"
  proof -
    have rd: "\<And>t. read_reset_count env t =
        (i915_reset_count env (fst t), log (Ev_reset_count (i915_reset_count env (fst t))) t)"
      by (simp add: read_reset_count_def Let_def)
    have eq: "target_round env do_reset engine s =
        (if ?gstart \<noteq> ?g then (- EIO, log Ev_pr_err (log (Ev_reset_count ?g) ?se))
         else (err3, ?se))"
      unfolding target_round_def rd Let_def prod.case st mid un
      by (simp add: log_simps)
    from run[symmetric] eq show ?thesis by (rule trans)
  qed
  from start_threads_trace[OF st dist] obtain trS where trS: "snd s2 = snd ?sa @ trS"
    "\<forall>e \<in> set trS. start_event engine ?es resets err1 e"
    "\<forall>tmp. threads tmp \<longrightarrow>
       (tmp \<in> set ?es \<and> tmp \<noteq> engine \<and> Ev_reset_engine_count tmp (resets tmp) \<in> set trS)"
    "err1 \<noteq> 0 \<longrightarrow> (\<exists>tmp. Ev_kthread_run tmp err1 \<in> set trS)"
    by auto
  from reset_phase_trace[OF mid] obtain trM where trM: "snd s3 = snd s2 @ trM"
    "\<forall>e \<in> set trM. e = Ev_pr_err \<or> e = Ev_set_bit engine \<or> e = Ev_clear_bit engine \<or>
                          (\<exists>r. e = Ev_reset_engine engine r)"
    "err2 \<noteq> 0 \<longrightarrow> err2 = err1 \<or> Ev_reset_engine engine err2 \<in> set trM"
    by blast
  from unwind_trace[OF un] obtain trU where trU: "snd s4 = snd s3 @ trU"
    "\<forall>e \<in> set trU. unwind_event threads resets ?es err3 e"
    "err3 \<noteq> 0 \<longrightarrow> err3 = err2 \<or> (\<exists>tmp. Ev_kthread_stop tmp err3 \<in> set trU) \<or>
       (\<exists>tmp v. Ev_reset_engine_count tmp v \<in> set trU \<and> threads tmp \<and> v \<noteq> resets tmp)"
    by blast
  let ?end = "if ?gstart \<noteq> ?g then [Ev_reset_count ?g, Ev_reset_count ?g, Ev_pr_err]
              else [Ev_reset_count ?g]"
  let ?tr = "[Ev_reset_count ?gstart] @ trS @ trM @ trU @ ?end"
  have tr: "snd s' = snd s @ ?tr"
    using res trS(1) trM(1) trU(1) by (auto simp: log_simps split: if_splits)
  have world: "fst s' = fst s4" using res by (auto simp: log_simps split: if_splits)
  have eio3: "err3 = - EIO \<Longrightarrow> err = - EIO" using res by (auto split: if_splits)
  have reads: "\<forall>tmp x. Ev_reset_engine_count tmp x \<in> set ?tr \<longrightarrow>
                 tmp \<noteq> engine \<and> (x = resets tmp \<or> err3 = - EIO)"
  proof (intro allI impI)
    fix tmp x assume "Ev_reset_engine_count tmp x \<in> set ?tr"
    then consider (S) "Ev_reset_engine_count tmp x \<in> set trS"
      | (M) "Ev_reset_engine_count tmp x \<in> set trM"
      | (U) "Ev_reset_engine_count tmp x \<in> set trU"
      by (auto split: if_splits)
    then show "tmp \<noteq> engine \<and> (x = resets tmp \<or> err3 = - EIO)"
    proof cases
      case S
      with trS(2) have "start_event engine ?es resets err1 (Ev_reset_engine_count tmp x)" by blast
      then show ?thesis by (auto simp: start_event_def)
    next
      case M
      with trM(2) show ?thesis by auto
    next
      case U
      with trU(2) have "unwind_event threads resets ?es err3 (Ev_reset_engine_count tmp x)"
        by blast
      then have "threads tmp" and "x \<noteq> resets tmp \<longrightarrow> err3 = - EIO"
        by (auto simp: unwind_event_def)
      with trS(3) show ?thesis by blast
    qed
  qed
  have p1: "\<forall>v. Ev_reset_engine_count engine v \<notin> set ?tr" using reads by blast
  have p2: "i915_reset_count env (fst s') \<noteq> i915_reset_count env (fst s) \<longrightarrow> err = - EIO"
    using res world by (auto split: if_splits)
  have p3: "\<forall>tmp v v'. Ev_reset_engine_count tmp v \<in> set ?tr \<and>
                        Ev_reset_engine_count tmp v' \<in> set ?tr \<and> v \<noteq> v' \<longrightarrow> err = - EIO"
  proof (intro allI impI)
    fix tmp v v'
    assume h: "Ev_reset_engine_count tmp v \<in> set ?tr \<and>
               Ev_reset_engine_count tmp v' \<in> set ?tr \<and> v \<noteq> v'"
    with reads have "(v = resets tmp \<or> err3 = - EIO) \<and> (v' = resets tmp \<or> err3 = - EIO)"
      by blast
    with h have "err3 = - EIO" by auto
    then show "err = - EIO" by (rule eio3)
  qed
  have p4: "err \<noteq> 0 \<longrightarrow>
              i915_reset_count env (fst s') \<noteq> i915_reset_count env (fst s) \<or>
              (\<exists>tmp v v'. Ev_reset_engine_count tmp v \<in> set ?tr \<and>
                           Ev_reset_engine_count tmp v' \<in> set ?tr \<and> v \<noteq> v') \<or>
              (\<exists>tmp. Ev_kthread_run tmp err \<in> set ?tr) \<or>
              Ev_reset_engine engine err \<in> set ?tr \<or>
              (\<exists>tmp. Ev_kthread_stop tmp err \<in> set ?tr)"
  proof
    assume nz: "err \<noteq> 0"
    show "i915_reset_count env (fst s') \<noteq> i915_reset_count env (fst s) \<or>
              (\<exists>tmp v v'. Ev_reset_engine_count tmp v \<in> set ?tr \<and>
                           Ev_reset_engine_count tmp v' \<in> set ?tr \<and> v \<noteq> v') \<or>
              (\<exists>tmp. Ev_kthread_run tmp err \<in> set ?tr) \<or>
              Ev_reset_engine engine err \<in> set ?tr \<or>
              (\<exists>tmp. Ev_kthread_stop tmp err \<in> set ?tr)"
    proof (cases "?gstart = ?g")
      case False
      then show ?thesis using world by simp
    next
      case True
      with res have e3: "err = err3" by simp
      with nz trU(3) consider (a) "err3 = err2"
        | (b) "\<exists>tmp. Ev_kthread_stop tmp err3 \<in> set trU"
        | (c) "\<exists>tmp v. Ev_reset_engine_count tmp v \<in> set trU \<and> threads tmp \<and> v \<noteq> resets tmp"
        by blast
      then show ?thesis
      proof cases
        case a
        with nz e3 trM(3) have "err2 = err1 \<or> Ev_reset_engine engine err2 \<in> set trM" by simp
        then show ?thesis
        proof
          assume "err2 = err1"
          with a e3 nz trS(4) obtain tmp where "Ev_kthread_run tmp err \<in> set trS" by auto
          then have "\<exists>tmp. Ev_kthread_run tmp err \<in> set ?tr" by auto
          then show ?thesis by blast
        next
          assume "Ev_reset_engine engine err2 \<in> set trM"
          with a e3 have "Ev_reset_engine engine err \<in> set ?tr" by simp
          then show ?thesis by blast
        qed
      next
        case b
        then obtain tmp where "Ev_kthread_stop tmp err \<in> set trU" using e3 by auto
        then have "\<exists>tmp. Ev_kthread_stop tmp err \<in> set ?tr" by auto
        then show ?thesis by blast
      next
        case c
        then obtain tmp v where c': "Ev_reset_engine_count tmp v \<in> set trU" "threads tmp"
          "v \<noteq> resets tmp" by blast
        from trS(3) c'(2) have "Ev_reset_engine_count tmp (resets tmp) \<in> set trS" by blast
        with c' have "Ev_reset_engine_count tmp v \<in> set ?tr \<and>
                      Ev_reset_engine_count tmp (resets tmp) \<in> set ?tr \<and> v \<noteq> resets tmp"
          by simp
        then show ?thesis by blast
      qed
    qed
  qed
  from tr p1 p2 p3 p4 show ?thesis by blast
qed

lemma sim_round_no_bump:
  "target_round (sim_env False) True 0 (sim_start, []) =
     (0, (\<lparr>sim_reset_count = 0, sim_engine_count = (\<lambda>_. 0)(0 := 2)\<rparr>,
          [Ev_reset_count 0, Ev_reset_engine_count 1 0, Ev_kthread_run 1 0, Ev_set_bit 0,
           Ev_reset_engine 0 0, Ev_reset_engine 0 0, Ev_clear_bit 0, Ev_kthread_stop 1 0,
           Ev_reset_engine_count 1 0, Ev_reset_count 0]))"
  by (simp add: target_round_def sim_env_def sim_start_def sim_reset_engine_def
      read_reset_count_def read_reset_engine_count_def call_kthread_run_def
      call_kthread_stop_def call_reset_engine_def call_set_bit_def call_clear_bit_def
      reset_attempt_def log_def Let_def)

lemma sim_round_bump:
  "target_round (sim_env True) True 0 (sim_start, []) =
     (- EIO, (\<lparr>sim_reset_count = 2, sim_engine_count = (\<lambda>_. 0)(0 := 2)\<rparr>,
          [Ev_reset_count 0, Ev_reset_engine_count 1 0, Ev_kthread_run 1 0, Ev_set_bit 0,
           Ev_reset_engine 0 0, Ev_reset_engine 0 0, Ev_clear_bit 0, Ev_kthread_stop 1 0,
           Ev_reset_engine_count 1 0, Ev_reset_count 2, Ev_reset_count 2, Ev_pr_err]))"
  by (simp add: target_round_def sim_env_def sim_start_def sim_reset_engine_def
      read_reset_count_def read_reset_engine_count_def call_kthread_run_def
      call_kthread_stop_def call_reset_engine_def call_set_bit_def call_clear_bit_def
      reset_attempt_def log_def Let_def)

lemma sim_harness_bump:
  "fst (igt_active_engines_reset (sim_env True) (sim_start, [])) = - EIO"
proof -
  have e: "for_each_engine (sim_env True) = [0, 1]"
    "intel_has_reset_engine (sim_env True) = (\<lambda>_. True)"
    "i915_terminally_wedged (sim_env True) = (\<lambda>_. False)"
    by (simp_all add: sim_env_def)
  have r: "target_round (sim_env True) True 0 (log Ev_pr_info (sim_start, [])) =
      (- EIO, snd (target_round (sim_env True) True 0 (log Ev_pr_info (sim_start, []))))"
    by (simp add: target_round_def sim_env_def sim_start_def sim_reset_engine_def
      read_reset_count_def read_reset_engine_count_def call_kthread_run_def
      call_kthread_stop_def call_reset_engine_def call_set_bit_def call_clear_bit_def
      reset_attempt_def log_def Let_def)
  show ?thesis
    unfolding igt_active_engines_reset_def igt_active_engines_def e
    by (simp add: EIO_def Let_def split: prod.splits) (use r in \<open>auto simp: EIO_def\<close>)
qed

lemma sim_harness_no_bump:
  "fst (igt_active_engines_reset (sim_env False) (sim_start, [])) = 0"
  by (simp add: igt_active_engines_reset_def igt_active_engines_def
      target_round_def sim_env_def sim_start_def sim_reset_engine_def
      read_reset_count_def read_reset_engine_count_def call_kthread_run_def
      call_kthread_stop_def call_reset_engine_def call_set_bit_def call_clear_bit_def
      call_cond_resched_def reset_attempt_def log_def Let_def)

subsection \<open>The harness against its verdict in closed form\<close>

text \<open>
  The calls of the harness change the state of the world as the environment says and
  add to the log only.
\<close>

lemma call_kthread_run_world:
  "call_kthread_run env e s = (r, s') \<Longrightarrow> kthread_run env e (fst s) = (r, fst s')"
  by (auto simp: call_kthread_run_def split: prod.splits)

lemma call_kthread_stop_world:
  "call_kthread_stop env e s = (r, s') \<Longrightarrow> kthread_stop env e (fst s) = (r, fst s')"
  by (auto simp: call_kthread_stop_def split: prod.splits)

lemma call_reset_engine_world:
  "call_reset_engine env e s = (r, s') \<Longrightarrow> i915_reset_engine env e (fst s) = (r, fst s')"
  by (auto simp: call_reset_engine_def split: prod.splits)

lemma start_threads_refines:
  assumes "start_threads env target es threads resets s = (err, threads', resets', s')"
      and "distinct es"
      and "\<forall>t \<in> set es. \<not> threads t"
  shows "\<exists>ws. workers_started env target es (fst s) = (ws, err, fst s') \<and>
              filter threads' es = map fst ws \<and>
              (\<forall>t. t \<notin> set es \<longrightarrow> threads' t = threads t) \<and>
              (\<forall>p \<in> set ws. resets' (fst p) = snd p) \<and>
              (\<forall>t. t \<notin> set es \<longrightarrow> resets' t = resets t)"
  using assms
proof (induction es arbitrary: threads resets s)
  case Nil
  then show ?case by simp
next
  case (Cons tmp rest)
  from Cons.prems(2) have d: "distinct rest" and notin: "tmp \<notin> set rest" by simp_all
  from Cons.prems(3) have nt: "\<not> threads tmp" and ntr: "\<forall>t \<in> set rest. \<not> threads t"
    by simp_all
  show ?case
  proof (cases "tmp = target")
    case True
    with Cons.prems(1) have run: "start_threads env target rest threads resets s =
        (err, threads', resets', s')" by simp
    from Cons.IH[OF run d ntr] obtain ws where ws:
      "workers_started env target rest (fst s) = (ws, err, fst s')"
      "filter threads' rest = map fst ws"
      "\<forall>t. t \<notin> set rest \<longrightarrow> threads' t = threads t"
      "\<forall>p \<in> set ws. resets' (fst p) = snd p"
      "\<forall>t. t \<notin> set rest \<longrightarrow> resets' t = resets t"
      by blast
    have "\<not> threads' tmp" using ws(3) notin nt by simp
    then have f: "filter threads' (tmp # rest) = map fst ws" using ws(2) by simp
    have w: "workers_started env target (tmp # rest) (fst s) = (ws, err, fst s')"
      using True ws(1) by simp
    from w f ws(3,4,5) show ?thesis by auto
  next
    case False
    let ?v = "i915_reset_engine_count env (fst s) tmp"
    let ?sa = "log (Ev_reset_engine_count tmp ?v) s"
    obtain tsk sb where k: "call_kthread_run env tmp ?sa = (tsk, sb)"
      by (cases "call_kthread_run env tmp ?sa")
    have kw: "kthread_run env tmp (fst s) = (tsk, fst sb)"
      using call_kthread_run_world[OF k] by (simp add: log_simps)
    show ?thesis
    proof (cases "tsk = 0")
      case True
      with Cons.prems(1) False k have run:
        "start_threads env target rest (threads(tmp := True)) (resets(tmp := ?v)) sb =
           (err, threads', resets', s')"
        by (simp add: read_reset_engine_count_def Let_def)
      have ntr': "\<forall>t \<in> set rest. \<not> (threads(tmp := True)) t" using ntr notin by auto
      from Cons.IH[OF run d ntr'] obtain ws where ws:
        "workers_started env target rest (fst sb) = (ws, err, fst s')"
        "filter threads' rest = map fst ws"
        "\<forall>t. t \<notin> set rest \<longrightarrow> threads' t = (threads(tmp := True)) t"
        "\<forall>p \<in> set ws. resets' (fst p) = snd p"
        "\<forall>t. t \<notin> set rest \<longrightarrow> resets' t = (resets(tmp := ?v)) t"
        by blast
      have tt: "threads' tmp" using ws(3) notin by simp
      have rt: "resets' tmp = ?v" using ws(5) notin by simp
      let ?ws = "(tmp, ?v) # ws"
      have w: "workers_started env target (tmp # rest) (fst s) = (?ws, err, fst s')"
        using False kw True ws(1) by simp
      have f: "filter threads' (tmp # rest) = map fst ?ws" using tt ws(2) by simp
      have a: "\<forall>t. t \<notin> set (tmp # rest) \<longrightarrow> threads' t = threads t" using ws(3) by simp
      have b: "\<forall>p \<in> set ?ws. resets' (fst p) = snd p" using ws(4) rt by simp
      have c: "\<forall>t. t \<notin> set (tmp # rest) \<longrightarrow> resets' t = resets t" using ws(5) by simp
      from w f a b c show ?thesis by blast
    next
      case nz: False
      with Cons.prems(1) False k have res:
        "err = tsk" "threads' = threads" "resets' = resets(tmp := ?v)" "s' = sb"
        by (simp_all add: read_reset_engine_count_def Let_def)
      have w: "workers_started env target (tmp # rest) (fst s) = ([], err, fst s')"
        using False kw nz res by simp
      have f: "filter threads' (tmp # rest) = map fst []"
        using res nt ntr by simp
      have c: "\<forall>t. t \<notin> set (tmp # rest) \<longrightarrow> resets' t = resets t" using res by simp
      from w f c res(2) show ?thesis by auto
    qed
  qed
qed

lemma reset_loop_refines:
  assumes "reset_loop env True target n s = (err, s')"
  shows "resets_attempted env target n (fst s) = (err, fst s')"
  using assms
proof (induction n arbitrary: s)
  case 0
  obtain r sa where c: "call_reset_engine env target s = (r, sa)"
    by (cases "call_reset_engine env target s")
  from 0 c have "err = r" "fst s' = fst sa"
    by (auto simp: reset_attempt_def log_simps split: if_splits)
  with call_reset_engine_world[OF c] show ?case by simp
next
  case (Suc n)
  obtain r sa where c: "call_reset_engine env target s = (r, sa)"
    by (cases "call_reset_engine env target s")
  note w = call_reset_engine_world[OF c]
  show ?case
  proof (cases "r = 0")
    case True
    with Suc.prems c have "reset_loop env True target n sa = (err, s')"
      by (simp add: reset_attempt_def)
    from Suc.IH[OF this] w True show ?thesis by simp
  next
    case False
    with Suc.prems c have "err = r" "fst s' = fst sa"
      by (auto simp: reset_attempt_def log_simps)
    with w False show ?thesis by simp
  qed
qed

lemma reset_loop_idle:
  "reset_loop env False target n s = (0, s)"
  by (induction n) (simp_all add: reset_attempt_def)

lemma unwind_refines:
  assumes "unwind env threads resets es err s = (err', s')"
      and "filter threads es = map fst ws"
      and "\<forall>p \<in> set ws. resets (fst p) = snd p"
  shows "\<exists>js. workers_joined env ws (fst s) = (js, fst s') \<and>
              err' = (if \<exists>j \<in> set js. snd j then - EIO
                      else if err \<noteq> 0 then err
                      else first_error (map fst js))"
  using assms
proof (induction es arbitrary: ws err s)
  case Nil
  then show ?case by simp
next
  case (Cons tmp rest)
  show ?case
  proof (cases "threads tmp")
    case False
    with Cons.prems have run: "unwind env threads resets rest err s = (err', s')"
      and f: "filter threads rest = map fst ws" by simp_all
    from Cons.IH[OF run f Cons.prems(3)] show ?thesis .
  next
    case True
    with Cons.prems(2) obtain b wr where ws: "ws = (tmp, b) # wr"
      and f: "filter threads rest = map fst wr"
      by (cases ws) auto
    from Cons.prems(3) ws have rb: "resets tmp = b" and rr: "\<forall>p \<in> set wr. resets (fst p) = snd p"
      by simp_all
    obtain ret sa where k: "call_kthread_stop env tmp s = (ret, sa)"
      by (cases "call_kthread_stop env tmp s")
    note kw = call_kthread_stop_world[OF k]
    let ?erra = "if ret \<noteq> 0 then (if err = 0 then ret else err) else err"
    let ?sb = "if ret \<noteq> 0 then log Ev_pr_err sa else sa"
    let ?v = "i915_reset_engine_count env (fst sa) tmp"
    let ?sc = "log (Ev_reset_engine_count tmp ?v) ?sb"
    let ?sd = "log Ev_pr_err (log (Ev_reset_engine_count tmp ?v) ?sc)"
    have wb: "fst ?sb = fst sa" by (cases "ret = 0") (simp_all add: log_simps)
    have wc: "fst ?sc = fst sa" using wb by (simp add: log_simps)
    have wd: "fst ?sd = fst sa" using wb by (simp add: log_simps)
    show ?thesis
    proof (cases "b = ?v")
      case same: True
      with Cons.prems(1) True k rb have run: "unwind env threads resets rest ?erra ?sc = (err', s')"
        by (auto simp: read_reset_engine_count_def Let_def log_simps split: if_splits)
      from Cons.IH[OF run f rr] obtain js where js:
        "workers_joined env wr (fst ?sc) = (js, fst s')"
        "err' = (if \<exists>j \<in> set js. snd j then - EIO
                 else if ?erra \<noteq> 0 then ?erra else first_error (map fst js))"
        by blast
      have w: "workers_joined env ws (fst s) = ((ret, False) # js, fst s')"
        using js(1)[unfolded wc] kw same by (simp add: ws)
      have e: "err' = (if \<exists>j \<in> set ((ret, False) # js). snd j then - EIO
                      else if err \<noteq> 0 then err
                      else first_error (map fst ((ret, False) # js)))"
        using js(2) by auto
      from w e show ?thesis by blast
    next
      case diff: False
      with Cons.prems(1) True k rb have run: "unwind env threads resets rest (- EIO) ?sd = (err', s')"
        by (auto simp: read_reset_engine_count_def Let_def log_simps split: if_splits)
      from Cons.IH[OF run f rr] obtain js where js:
        "workers_joined env wr (fst ?sd) = (js, fst s')"
        "err' = (if \<exists>j \<in> set js. snd j then - EIO
                 else if - EIO \<noteq> 0 then - EIO else first_error (map fst js))"
        by blast
      have eio: "err' = - EIO" using js(2) EIO_nonzero by auto
      have w: "workers_joined env ws (fst s) = ((ret, True) # js, fst s')"
        using js(1)[unfolded wd] kw diff by (simp add: ws)
      from w eio show ?thesis by auto
    qed
  qed
qed

lemma target_round_refines:
  assumes run: "target_round env do_reset target s = (err, s')"
      and dist: "distinct (for_each_engine env)"
  shows "round_verdict env do_reset target (fst s) = (err, fst s')"
proof -
  let ?es = "for_each_engine env"
  let ?gstart = "i915_reset_count env (fst s)"
  let ?sa = "log (Ev_reset_count ?gstart) s"
  let ?n = "deadline_tests env (fst ?sa)"
  obtain erra threads resets sb where st:
    "start_threads env target ?es (\<lambda>_. False) (stack_resets env) ?sa = (erra, threads, resets, sb)"
    by (cases "start_threads env target ?es (\<lambda>_. False) (stack_resets env) ?sa") auto
  obtain errb sc where mid:
    "(if erra \<noteq> 0 then (erra, sb)
      else case reset_loop env do_reset target ?n (call_set_bit env target sb) of
             (e, s') \<Rightarrow> (e, call_clear_bit env target s')) = (errb, sc)"
    by (cases "(if erra \<noteq> 0 then (erra, sb)
      else case reset_loop env do_reset target ?n (call_set_bit env target sb) of
             (e, s') \<Rightarrow> (e, call_clear_bit env target s'))") auto
  obtain errc sd where un: "unwind env threads resets ?es errb sc = (errc, sd)"
    by (cases "unwind env threads resets ?es errb sc")
  let ?g = "i915_reset_count env (fst sd)"
  let ?se = "log (Ev_reset_count ?g) sd"
  have res: "(err, s') = (if ?gstart \<noteq> ?g then (- EIO, log Ev_pr_err (log (Ev_reset_count ?g) ?se))
                          else (errc, ?se))"
  proof -
    have rd: "\<And>t. read_reset_count env t =
        (i915_reset_count env (fst t), log (Ev_reset_count (i915_reset_count env (fst t))) t)"
      by (simp add: read_reset_count_def Let_def)
    have eq: "target_round env do_reset target s =
        (if ?gstart \<noteq> ?g then (- EIO, log Ev_pr_err (log (Ev_reset_count ?g) ?se))
         else (errc, ?se))"
      unfolding target_round_def rd Let_def prod.case st mid un
      by (simp add: log_simps)
    from run[symmetric] eq show ?thesis by (rule trans)
  qed
  have world: "fst s' = fst sd" using res by (auto simp: log_simps split: if_splits)
  from start_threads_refines[OF st dist] obtain ws where ws:
    "workers_started env target ?es (fst s) = (ws, erra, fst sb)"
    "filter threads ?es = map fst ws"
    "\<forall>p \<in> set ws. resets (fst p) = snd p"
    by (auto simp: log_simps)
  have phase: "(if erra \<noteq> 0 then (erra, fst sb)
                else case (if do_reset
                           then resets_attempted env target (deadline_tests env (fst s))
                                  (set_bit_reset_engine env target (fst sb))
                           else (0, set_bit_reset_engine env target (fst sb))) of
                       (r, wb) \<Rightarrow> (r, clear_bit_reset_engine env target wb)) = (errb, fst sc)"
  proof (cases "erra = 0")
    case False
    with mid show ?thesis by auto
  next
    case True
    obtain e sl where l: "reset_loop env do_reset target ?n (call_set_bit env target sb) = (e, sl)"
      by (cases "reset_loop env do_reset target ?n (call_set_bit env target sb)")
    from mid True l have r: "errb = e" "sc = call_clear_bit env target sl" by simp_all
    have n: "?n = deadline_tests env (fst s)" by (simp add: log_simps)
    have sw: "fst (call_set_bit env target sb) = set_bit_reset_engine env target (fst sb)"
      by (simp add: call_set_bit_def)
    have cw: "fst sc = clear_bit_reset_engine env target (fst sl)"
      using r by (simp add: call_clear_bit_def)
    show ?thesis
    proof (cases do_reset)
      case True
      from l True have lt: "reset_loop env True target ?n (call_set_bit env target sb) = (e, sl)"
        by simp
      have "resets_attempted env target ?n (fst (call_set_bit env target sb)) = (e, fst sl)"
        by (rule reset_loop_refines[OF lt])
      with True \<open>erra = 0\<close> r cw sw n show ?thesis by simp
    next
      case False
      with l have "e = 0" "sl = call_set_bit env target sb"
        by (simp_all add: reset_loop_idle)
      with False \<open>erra = 0\<close> r cw sw show ?thesis by simp
    qed
  qed
  from unwind_refines[OF un ws(2,3)] obtain js where js:
    "workers_joined env ws (fst sc) = (js, fst sd)"
    "errc = (if \<exists>j \<in> set js. snd j then - EIO
             else if errb \<noteq> 0 then errb else first_error (map fst js))"
    by blast
  have "round_verdict env do_reset target (fst s) =
          (if i915_reset_count env (fst sd) \<noteq> i915_reset_count env (fst s) then - EIO
           else if \<exists>j \<in> set js. snd j then - EIO
           else if errb \<noteq> 0 then errb
           else first_error (map fst js), fst sd)"
    unfolding round_verdict_def ws(1) prod.case phase js(1) ..
  also have "\<dots> = (err, fst s')"
    using res js(2) world by (auto split: if_splits)
  finally show ?thesis .
qed

lemma target_rounds_refines:
  assumes "target_rounds env do_reset ts s = (err, s')"
      and "distinct (for_each_engine env)"
  shows "rounds_verdict env do_reset ts (fst s) = (err, fst s')"
  using assms
proof (induction ts arbitrary: s)
  case Nil
  then show ?case by simp
next
  case (Cons t ts)
  obtain e sa where r: "target_round env do_reset t s = (e, sa)"
    by (cases "target_round env do_reset t s")
  note rv = target_round_refines[OF r Cons.prems(2)]
  show ?case
  proof (cases "e = 0")
    case False
    with Cons.prems(1) r have "err = e" "s' = sa" by simp_all
    with rv False show ?thesis by simp
  next
    case True
    with Cons.prems(1) r have run: "target_rounds env do_reset ts (call_cond_resched env sa) = (err, s')"
      by simp
    from Cons.IH[OF run Cons.prems(2)] rv True show ?thesis
      by (simp add: call_cond_resched_def)
  qed
qed

lemma igt_active_engines_refines:
  assumes "igt_active_engines env do_reset s = (err, s')"
      and "distinct (for_each_engine env)"
  shows "harness_verdict env do_reset (fst s) = (err, fst s')"
proof (cases "intel_has_reset_engine env (fst s)")
  case False
  with assms(1) show ?thesis
    by (simp add: igt_active_engines_def harness_verdict_def)
next
  case True
  obtain e sa where r: "target_rounds env do_reset (for_each_engine env) (log Ev_pr_info s) = (e, sa)"
    by (cases "target_rounds env do_reset (for_each_engine env) (log Ev_pr_info s)")
  from target_rounds_refines[OF r assms(2)] have
    rv: "rounds_verdict env do_reset (for_each_engine env) (fst s) = (e, fst sa)"
    by (simp add: log_simps)
  from assms(1) True r have "err = (if i915_terminally_wedged env (fst sa) then - EIO else e)"
    and "fst s' = fst sa"
    by (auto simp: igt_active_engines_def Let_def log_simps)
  with True rv show ?thesis by (simp add: harness_verdict_def)
qed

lemmas sim_run_defs = target_round_def sim_env_def sim_start_def sim_reset_engine_def
      read_reset_count_def read_reset_engine_count_def call_kthread_run_def
      call_kthread_stop_def call_reset_engine_def call_set_bit_def call_clear_bit_def
      call_cond_resched_def reset_attempt_def log_def Let_def

lemma sim_harness_wedged:
  "igt_active_engines sim_env_wedged True (sim_start, []) =
     (- EIO, (\<lparr>sim_reset_count = 0, sim_engine_count = (\<lambda>_. 0)(0 := 2, 1 := 2)\<rparr>,
        [Ev_pr_info, Ev_reset_count 0, Ev_reset_engine_count 1 0,
         Ev_kthread_run 1 0, Ev_set_bit 0, Ev_reset_engine 0 0,
         Ev_reset_engine 0 0, Ev_clear_bit 0, Ev_kthread_stop 1 0,
         Ev_reset_engine_count 1 0, Ev_reset_count 0, Ev_cond_resched,
         Ev_reset_count 0, Ev_reset_engine_count 0 2, Ev_kthread_run 0 0,
         Ev_set_bit 1, Ev_reset_engine 1 0, Ev_reset_engine 1 0, Ev_clear_bit 1,
         Ev_kthread_stop 0 0, Ev_reset_engine_count 0 2, Ev_reset_count 0,
         Ev_cond_resched, Ev_terminally_wedged True]))"
  by (simp add: igt_active_engines_def sim_env_wedged_def sim_run_defs)

lemma sim_round_wedged:
  "target_round sim_env_wedged True 0 (sim_start, []) =
     (0, (\<lparr>sim_reset_count = 0, sim_engine_count = (\<lambda>_. 0)(0 := 2)\<rparr>,
        [Ev_reset_count 0, Ev_reset_engine_count 1 0, Ev_kthread_run 1 0,
         Ev_set_bit 0, Ev_reset_engine 0 0, Ev_reset_engine 0 0, Ev_clear_bit 0,
         Ev_kthread_stop 1 0, Ev_reset_engine_count 1 0, Ev_reset_count 0]))"
  by (simp add: sim_env_wedged_def sim_run_defs)

lemma sim_harness_innocent:
  "igt_active_engines sim_env_innocent True (sim_start, []) =
     (- EIO, (\<lparr>sim_reset_count = 0, sim_engine_count = (\<lambda>_. 0)(0 := 2, 1 := 2)\<rparr>,
        [Ev_pr_info, Ev_reset_count 0, Ev_reset_engine_count 1 0,
         Ev_kthread_run 1 0, Ev_set_bit 0, Ev_reset_engine 0 0,
         Ev_reset_engine 0 0, Ev_clear_bit 0, Ev_kthread_stop 1 (- 12), Ev_pr_err,
         Ev_reset_engine_count 1 2, Ev_reset_engine_count 1 2, Ev_pr_err,
         Ev_reset_count 0, Ev_terminally_wedged False]))"
  by (simp add: igt_active_engines_def sim_env_innocent_def sim_run_defs EIO_def)

text \<open>
  The claim C2 as it is written fails in both directions. On a device where a reset of
  an engine adds one to the counter of that engine only, two resets of engine 0 complete
  and the global counter does not move: the claim asks for a violation, the harness
  returns 0. On a device where a reset adds one to the global counter as well, the
  counter of engine 1 stays, that of engine 0 grows by the two completed resets and so
  does the global counter: the claim asks for success, the harness returns \<open>-EIO\<close>.
\<close>

theorem isolation_verdict_counterexample:
  "target_round (sim_env False) True 0 (sim_start, []) =
     (0, (\<lparr>sim_reset_count = 0, sim_engine_count = (\<lambda>_. 0)(0 := 2)\<rparr>,
          [Ev_reset_count 0, Ev_reset_engine_count 1 0, Ev_kthread_run 1 0, Ev_set_bit 0,
           Ev_reset_engine 0 0, Ev_reset_engine 0 0, Ev_clear_bit 0, Ev_kthread_stop 1 0,
           Ev_reset_engine_count 1 0, Ev_reset_count 0])) \<and>
   fst (igt_active_engines_reset (sim_env False) (sim_start, [])) = 0 \<and>
   target_round (sim_env True) True 0 (sim_start, []) =
     (- 5, (\<lparr>sim_reset_count = 2, sim_engine_count = (\<lambda>_. 0)(0 := 2)\<rparr>,
          [Ev_reset_count 0, Ev_reset_engine_count 1 0, Ev_kthread_run 1 0, Ev_set_bit 0,
           Ev_reset_engine 0 0, Ev_reset_engine 0 0, Ev_clear_bit 0, Ev_kthread_stop 1 0,
           Ev_reset_engine_count 1 0, Ev_reset_count 2, Ev_reset_count 2, Ev_pr_err])) \<and>
   fst (igt_active_engines_reset (sim_env True) (sim_start, [])) = - 5"
  using sim_round_no_bump sim_harness_no_bump sim_round_bump sim_harness_bump
  by (simp add: EIO_def)

text \<open>
  Claim C2, amended. From every state and in both modes the harness returns what the
  closed form \<open>harness_verdict\<close> gives, and leaves the world in the same state. On a
  device with support for the reset of one engine it takes the engines as targets in
  their order and stops at the first target whose turn ends with an error. A turn ends
  with \<open>-EIO\<close> if the global reset counter, read once all workers are joined, differs at
  all from its value at the start of the turn (an increase by the number of completed
  resets is no exception), or if for some non-target engine whose worker was started the
  counter of that engine, read right after this worker is stopped and joined, differs
  from the value read just before the worker was started; this also when the start of
  a worker, a reset or a worker has failed before. Otherwise the turn ends with the
  error of the failed start or of the failed reset, else with the first nonzero value
  returned by a joined worker, else with 0. After the loop a terminally wedged device
  gives \<open>-EIO\<close> whatever the turns gave. In no turn is the counter of the target engine
  read.
\<close>

theorem isolation_verdict:
  assumes run: "igt_active_engines env do_reset (w, lg) = (err, (w', lg'))"
      and dist: "distinct (for_each_engine env)"
  shows "harness_verdict env do_reset w = (err, w') \<and>
         (intel_has_reset_engine env w \<and> i915_terminally_wedged env w' \<longrightarrow> err = - EIO) \<and>
         (\<forall>target w0 e0 w1 tr.
            target_round env do_reset target (w0, []) = (e0, (w1, tr)) \<longrightarrow>
              round_verdict env do_reset target w0 = (e0, w1) \<and>
              (\<forall>v. Ev_reset_engine_count target v \<notin> set tr))"
proof -
  have h: "harness_verdict env do_reset w = (err, w')"
    using igt_active_engines_refines[OF run dist] by simp
  have wd: "intel_has_reset_engine env w \<and> i915_terminally_wedged env w' \<longrightarrow> err = - EIO"
    using h by (auto simp: harness_verdict_def split: prod.splits if_splits)
  have rd: "round_verdict env do_reset target w0 = (e0, w1) \<and>
            (\<forall>v. Ev_reset_engine_count target v \<notin> set tr)"
    if r: "target_round env do_reset target (w0, []) = (e0, (w1, tr))" for target w0 e0 w1 tr
    using target_round_refines[OF r dist] target_round_trace[OF r dist] by simp
  from h wd rd show ?thesis by blast
qed

theorem isolation_verdict_witness:
  "distinct (for_each_engine sim_env_wedged) \<and>
   igt_active_engines sim_env_wedged True (sim_start, []) =
     (- EIO, (\<lparr>sim_reset_count = 0, sim_engine_count = (\<lambda>_. 0)(0 := 2, 1 := 2)\<rparr>,
        [Ev_pr_info, Ev_reset_count 0, Ev_reset_engine_count 1 0,
         Ev_kthread_run 1 0, Ev_set_bit 0, Ev_reset_engine 0 0,
         Ev_reset_engine 0 0, Ev_clear_bit 0, Ev_kthread_stop 1 0,
         Ev_reset_engine_count 1 0, Ev_reset_count 0, Ev_cond_resched,
         Ev_reset_count 0, Ev_reset_engine_count 0 2, Ev_kthread_run 0 0,
         Ev_set_bit 1, Ev_reset_engine 1 0, Ev_reset_engine 1 0, Ev_clear_bit 1,
         Ev_kthread_stop 0 0, Ev_reset_engine_count 0 2, Ev_reset_count 0,
         Ev_cond_resched, Ev_terminally_wedged True])) \<and>
   intel_has_reset_engine sim_env_wedged sim_start \<and>
   i915_terminally_wedged sim_env_wedged
     \<lparr>sim_reset_count = 0, sim_engine_count = (\<lambda>_. 0)(0 := 2, 1 := 2)\<rparr> \<and>
   harness_verdict sim_env_wedged True sim_start =
     (- EIO, \<lparr>sim_reset_count = 0, sim_engine_count = (\<lambda>_. 0)(0 := 2, 1 := 2)\<rparr>) \<and>
   target_round sim_env_wedged True 0 (sim_start, []) =
     (0, (\<lparr>sim_reset_count = 0, sim_engine_count = (\<lambda>_. 0)(0 := 2)\<rparr>,
        [Ev_reset_count 0, Ev_reset_engine_count 1 0, Ev_kthread_run 1 0,
         Ev_set_bit 0, Ev_reset_engine 0 0, Ev_reset_engine 0 0, Ev_clear_bit 0,
         Ev_kthread_stop 1 0, Ev_reset_engine_count 1 0, Ev_reset_count 0])) \<and>
   round_verdict sim_env_wedged True 0 sim_start =
     (0, \<lparr>sim_reset_count = 0, sim_engine_count = (\<lambda>_. 0)(0 := 2)\<rparr>) \<and>
   distinct (for_each_engine sim_env_innocent) \<and>
   igt_active_engines sim_env_innocent True (sim_start, []) =
     (- EIO, (\<lparr>sim_reset_count = 0, sim_engine_count = (\<lambda>_. 0)(0 := 2, 1 := 2)\<rparr>,
        [Ev_pr_info, Ev_reset_count 0, Ev_reset_engine_count 1 0,
         Ev_kthread_run 1 0, Ev_set_bit 0, Ev_reset_engine 0 0,
         Ev_reset_engine 0 0, Ev_clear_bit 0, Ev_kthread_stop 1 (- 12), Ev_pr_err,
         Ev_reset_engine_count 1 2, Ev_reset_engine_count 1 2, Ev_pr_err,
         Ev_reset_count 0, Ev_terminally_wedged False])) \<and>
   harness_verdict sim_env_innocent True sim_start =
     (- EIO, \<lparr>sim_reset_count = 0, sim_engine_count = (\<lambda>_. 0)(0 := 2, 1 := 2)\<rparr>) \<and>
   - EIO \<noteq> (- 12 :: int)"
proof -
  have d1: "distinct (for_each_engine sim_env_wedged)"
    by (simp add: sim_env_wedged_def sim_env_def)
  have d2: "distinct (for_each_engine sim_env_innocent)"
    by (simp add: sim_env_innocent_def sim_env_def)
  have e: "intel_has_reset_engine sim_env_wedged sim_start"
    by (simp add: sim_env_wedged_def sim_env_def)
  have g: "i915_terminally_wedged sim_env_wedged
     \<lparr>sim_reset_count = 0, sim_engine_count = (\<lambda>_. 0)(0 := 2, 1 := 2)\<rparr>"
    by (simp add: sim_env_wedged_def sim_env_def)
  have n: "- EIO \<noteq> (- 12 :: int)" by (simp add: EIO_def)
  from isolation_verdict[OF sim_harness_wedged d1]
       isolation_verdict[OF sim_harness_innocent d2]
       sim_harness_wedged sim_harness_innocent sim_round_wedged d1 d2 e g n
  show ?thesis by blast
qed

text \<open>
  Claim C10. Without support for a reset of one engine, the harness returns 0 at once in
  both modes, and without support for any reset of the GPU the entry point of the
  selftests returns 0 at once: the state is returned as it was given, so no worker was
  started, no reset invoked and no counter read, and no call was logged.
\<close>

theorem harness_skips_without_reset:
  "(\<not> intel_has_reset_engine env (fst s) \<longrightarrow>
      igt_active_engines env do_reset s = (0, s) \<and>
      igt_active_engines_reset env s = (0, s) \<and>
      igt_active_engines_no_reset env s = (0, s)) \<and>
   (\<not> intel_has_gpu_reset env (fst s) \<longrightarrow> intel_shit_live_selftests env s = (0, s))"
  by (simp add: igt_active_engines_def igt_active_engines_reset_def
      igt_active_engines_no_reset_def intel_shit_live_selftests_def)

theorem harness_skips_without_reset_witness:
  "\<not> intel_has_reset_engine sim_env_no_engine_reset sim_start \<and>
   igt_active_engines_reset sim_env_no_engine_reset (sim_start, []) = (0, (sim_start, [])) \<and>
   igt_active_engines_no_reset sim_env_no_engine_reset (sim_start, []) = (0, (sim_start, [])) \<and>
   \<not> intel_has_gpu_reset sim_env_no_gpu_reset sim_start \<and>
   intel_shit_live_selftests sim_env_no_gpu_reset (sim_start, []) = (0, (sim_start, []))"
proof -
  have a: "\<not> intel_has_reset_engine sim_env_no_engine_reset (fst (sim_start, []))"
    by (simp add: sim_env_no_engine_reset_def)
  have b: "\<not> intel_has_gpu_reset sim_env_no_gpu_reset (fst (sim_start, []))"
    by (simp add: sim_env_no_gpu_reset_def)
  from harness_skips_without_reset[of sim_env_no_engine_reset "(sim_start, [])" True]
       harness_skips_without_reset[of sim_env_no_gpu_reset "(sim_start, [])" True] a b
  show ?thesis by simp
qed

end
